theory Spec2Isabelle
  imports Complex_Main
begin

section \<open>JavaScript numbers\<close>

text \<open>
  The calculator computes with JavaScript numbers. A number is modelled as a finite
  real, one of the two infinities, or NaN. Finite arithmetic is exact: the rounding of
  IEEE doubles to 53 bits, overflow to an infinity and the sign of zero are not
  modelled. Every special value the source can produce (\<open>Infinity\<close> from
  \<open>invSumOdds\<close>, NaN from \<open>0 * Infinity\<close>, \<open>Infinity - Infinity\<close> or a NaN
  input) is.
\<close>

datatype num = Fin real | PInf | NInf | NaN

fun isNum :: "num \<Rightarrow> bool" where
  "isNum (Fin x) = True"
| "isNum x = False"

fun nneg :: "num \<Rightarrow> num" where
  "nneg (Fin x) = Fin (- x)"
| "nneg PInf = NInf"
| "nneg NInf = PInf"
| "nneg NaN = NaN"

fun nadd :: "num \<Rightarrow> num \<Rightarrow> num" where
  "nadd NaN y = NaN"
| "nadd x NaN = NaN"
| "nadd (Fin x) (Fin y) = Fin (x + y)"
| "nadd PInf NInf = NaN"
| "nadd NInf PInf = NaN"
| "nadd PInf y = PInf"
| "nadd NInf y = NInf"
| "nadd (Fin x) y = y"

definition nsub :: "num \<Rightarrow> num \<Rightarrow> num" where
  "nsub x y = nadd x (nneg y)"

text \<open>The sign of a number that is not NaN: \<open>1\<close>, \<open>0\<close> or \<open>-1\<close>.\<close>

fun nsign :: "num \<Rightarrow> real" where
  "nsign (Fin x) = sgn x"
| "nsign PInf = 1"
| "nsign NInf = - 1"
| "nsign NaN = 0"

definition infOfSign :: "real \<Rightarrow> num" where
  "infOfSign s = (if s = 0 then NaN else if 0 < s then PInf else NInf)"

fun nmul :: "num \<Rightarrow> num \<Rightarrow> num" where
  "nmul NaN y = NaN"
| "nmul x NaN = NaN"
| "nmul (Fin x) (Fin y) = Fin (x * y)"
| "nmul x y = infOfSign (nsign x * nsign y)"

text \<open>
  Division. A finite divisor that is zero gives an infinity of the dividend's sign (the
  divisor taken as \<open>+0\<close>), or NaN for \<open>0 / 0\<close>; no division of the source is
  reached with a zero divisor (each is guarded by \<open>o > 0\<close>, \<open>AR > 0\<close>,
  \<open>!(o <= 0)\<close>, \<open>!(Math.abs(denom) < 1e-12)\<close>, \<open>total > 0\<close>, or divides by 100).
\<close>

fun ndiv :: "num \<Rightarrow> num \<Rightarrow> num" where
  "ndiv NaN y = NaN"
| "ndiv x NaN = NaN"
| "ndiv (Fin x) (Fin y) = (if y = 0 then infOfSign (sgn x) else Fin (x / y))"
| "ndiv (Fin x) y = Fin 0"
| "ndiv x (Fin y) = infOfSign (nsign x * (if y < 0 then - 1 else 1))"
| "ndiv x y = NaN"

text \<open>Comparisons: every comparison with NaN is false.\<close>

fun nlt :: "num \<Rightarrow> num \<Rightarrow> bool" where
  "nlt NaN y = False"
| "nlt x NaN = False"
| "nlt (Fin x) (Fin y) = (x < y)"
| "nlt x PInf = (x \<noteq> PInf)"
| "nlt NInf y = (y \<noteq> NInf)"
| "nlt x y = False"

definition ngt :: "num \<Rightarrow> num \<Rightarrow> bool" where
  "ngt x y = nlt y x"

definition nle :: "num \<Rightarrow> num \<Rightarrow> bool" where
  "nle x y = (x \<noteq> NaN \<and> y \<noteq> NaN \<and> \<not> nlt y x)"

definition nge :: "num \<Rightarrow> num \<Rightarrow> bool" where
  "nge x y = nle y x"

text \<open>\<open>Math.max\<close>, \<open>Math.abs\<close>, \<open>Math.round\<close> (halves go up).\<close>

definition mathMax :: "num \<Rightarrow> num \<Rightarrow> num" where
  "mathMax x y = (if x = NaN \<or> y = NaN then NaN else if nlt x y then y else x)"

fun mathAbs :: "num \<Rightarrow> num" where
  "mathAbs (Fin x) = Fin \<bar>x\<bar>"
| "mathAbs PInf = PInf"
| "mathAbs NInf = PInf"
| "mathAbs NaN = NaN"

fun mathRound :: "num \<Rightarrow> num" where
  "mathRound (Fin x) = Fin (of_int \<lfloor>x + 1 / 2\<rfloor>)"
| "mathRound x = x"

text \<open>\<open>x || 0\<close> on a number: 0 and NaN are falsy.\<close>

definition orZero :: "num \<Rightarrow> num" where
  "orZero x = (if x = NaN \<or> x = Fin 0 then Fin 0 else x)"

definition EPSILON :: real where
  "EPSILON = 1 / 2 ^ 52"

definition round2 :: "num \<Rightarrow> num" where
  "round2 x = ndiv (mathRound (nmul (nadd x (Fin EPSILON)) (Fin 100))) (Fin 100)"

text \<open>
  Text of an input field or a badge: \<open>"-"\<close>, or a decimal numeral, modelled by the
  number it denotes. \<open>fmt2\<close> prints with two decimals; \<open>toNumber\<close> is \<open>Number(text)\<close>.
\<close>

datatype display = Dash | Decimal real

fun fmt2 :: "num \<Rightarrow> display" where
  "fmt2 (Fin x) = (case round2 (Fin x) of Fin y \<Rightarrow> Decimal y | _ \<Rightarrow> Dash)"
| "fmt2 x = Dash"

fun toNumber :: "display \<Rightarrow> num" where
  "toNumber Dash = NaN"
| "toNumber (Decimal x) = Fin x"

section \<open>Row model and state\<close>

record row =
  odds :: num
  stake :: num
  R :: bool
  manual :: bool

record state =
  n :: nat
  fixedIndex :: "int option"
  bank :: num
  rows :: "row list"

definition defaultRow :: row where
  "defaultRow = \<lparr>odds = Fin 2, stake = Fin 0, R = True, manual = False\<rparr>"

text \<open>\<open>xs[i]\<close> in JavaScript: \<open>undefined\<close> outside the array.\<close>

definition elemAt :: "'a list \<Rightarrow> int \<Rightarrow> 'a option" where
  "elemAt xs i = (if 0 \<le> i \<and> i < int (length xs) then Some (xs ! nat i) else None)"

function pushRows :: "nat \<Rightarrow> row list \<Rightarrow> row list" where
  "pushRows m rs = (if length rs < m then pushRows m (rs @ [defaultRow]) else rs)"
  by pat_completeness auto
termination
  by (relation "measure (\<lambda>(m, rs). m - length rs)") auto

declare pushRows.simps [simp del]

text \<open>
  \<open>ensureRows\<close>. The \<open>manual\<close> field is a boolean in the model, so the source's
  repair of a non-boolean \<open>manual\<close> has nothing to do.
\<close>

definition ensureRows :: "state \<Rightarrow> state" where
  "ensureRows st =
     (let rs = take (n st) (pushRows (n st) (rows st));
          fi = (case fixedIndex st of
                  None \<Rightarrow> None
                | Some j \<Rightarrow> if j < 0 \<or> j \<ge> int (n st) then None else Some j)
      in st\<lparr>rows := rs, fixedIndex := fi\<rparr>)"

section \<open>Metrics\<close>

definition sumStakes :: "row list \<Rightarrow> num" where
  "sumStakes rs =
     round2 (foldl (\<lambda>s r. nadd s (if isNum (stake r) then mathMax (Fin 0) (stake r) else Fin 0))
               (Fin 0) rs)"

definition invTerm :: "num \<Rightarrow> num" where
  "invTerm o' = (if ngt o' (Fin 0) then ndiv (Fin 1) o' else PInf)"

definition invSumOdds :: "num list \<Rightarrow> num" where
  "invSumOdds os = foldl (\<lambda>s o'. nadd s (invTerm o')) (Fin 0) os"

text \<open>The sum \<open>AR\<close> of both solvers: inverse odds over the recipient rows.\<close>

definition invSumR :: "num list \<Rightarrow> bool list \<Rightarrow> num" where
  "invSumR os isR =
     foldl (\<lambda>s (o', r). nadd s (if r then invTerm o' else Fin 0)) (Fin 0) (zip os isR)"

section \<open>Solver\<close>

text \<open>\<open>rows.findIndex(r => r.R)\<close>: the first index, or \<open>None\<close> for \<open>-1\<close>.\<close>

fun findIndex :: "('a \<Rightarrow> bool) \<Rightarrow> 'a list \<Rightarrow> nat option" where
  "findIndex p [] = None"
| "findIndex p (x # xs) =
     (if p x then Some 0 else (case findIndex p xs of None \<Rightarrow> None | Some k \<Rightarrow> Some (Suc k)))"

text \<open>The raw stake of one row, shared by both solvers.\<close>

definition rawStake :: "num \<Rightarrow> num \<Rightarrow> num \<Rightarrow> bool \<Rightarrow> num" where
  "rawStake T K o' r =
     (if nle o' (Fin 0) then Fin 0 else if r then ndiv (nadd T K) o' else ndiv T o')"

definition bankT :: "num \<Rightarrow> num" where
  "bankT b = mathMax (Fin 0) (orZero b)"

definition bankK :: "num \<Rightarrow> row list \<Rightarrow> num" where
  "bankK b rs =
     (let os = map odds rs; isR = map R rs;
          A = invSumOdds os; AR = invSumR os isR; T = bankT b
      in if ngt AR (Fin 0) then ndiv (nmul T (nsub (Fin 1) A)) AR else Fin 0)"

text \<open>The stakes of \<open>suggestFromBank\<close> after rounding, before the residual goes in.\<close>

definition bankRounded :: "num \<Rightarrow> row list \<Rightarrow> num list" where
  "bankRounded b rs =
     map (\<lambda>s. round2 (mathMax (Fin 0) s))
       (map (\<lambda>(o', r). rawStake (bankT b) (bankK b rs) o' r) (zip (map odds rs) (map R rs)))"

definition bankDelta :: "num \<Rightarrow> row list \<Rightarrow> num" where
  "bankDelta b rs =
     round2 (nsub (bankT b) (round2 (foldl nadd (Fin 0) (bankRounded b rs))))"

definition suggestFromBank :: "num \<Rightarrow> row list \<Rightarrow> num list" where
  "suggestFromBank b rs =
     (let stakes = bankRounded b rs; delta = bankDelta b rs
      in if nge (mathAbs delta) (Fin (1 / 100)) then
           (case findIndex R rs of
              None \<Rightarrow> stakes
            | Some k \<Rightarrow> stakes[k := round2 (mathMax (Fin 0) (nadd (stakes ! k) delta))])
         else stakes)"

definition fixedDenom :: "row list \<Rightarrow> num" where
  "fixedDenom rs =
     (let os = map odds rs; isR = map R rs
      in nadd (nsub (Fin 1) (invSumOdds os)) (invSumR os isR))"

definition fixedSj :: "row \<Rightarrow> num" where
  "fixedSj fr = mathMax (Fin 0) (orZero (stake fr))"

definition fixedT :: "row \<Rightarrow> row list \<Rightarrow> num" where
  "fixedT fr rs =
     (let sj = fixedSj fr; oj = odds fr; denom = fixedDenom rs
      in if nlt (mathAbs denom) (Fin (1 / 10 ^ 12)) then nmul sj oj
         else ndiv (nmul (nmul sj oj) (invSumR (map odds rs) (map R rs))) denom)"

definition fixedK :: "row \<Rightarrow> row list \<Rightarrow> num" where
  "fixedK fr rs =
     (let sj = fixedSj fr; oj = odds fr; denom = fixedDenom rs
      in if nlt (mathAbs denom) (Fin (1 / 10 ^ 12)) then Fin 0
         else nsub (nmul sj oj) (fixedT fr rs))"

text \<open>\<open>suggestFromFixedRow\<close>: \<open>None\<close> is the source's \<open>null\<close>.\<close>

definition suggestFromFixedRow :: "int \<Rightarrow> row list \<Rightarrow> num list option" where
  "suggestFromFixedRow fixedIdx rs =
     (case elemAt rs fixedIdx of
        None \<Rightarrow> None
      | Some fr \<Rightarrow>
          if \<not> R fr then None
          else
            (let stakes =
                   map (\<lambda>s. round2 (mathMax (Fin 0) s))
                     (map (\<lambda>(o', r). rawStake (fixedT fr rs) (fixedK fr rs) o' r)
                        (zip (map odds rs) (map R rs)))
             in Some (stakes[nat fixedIdx := round2 (fixedSj fr)])))"

section \<open>Validator\<close>

datatype error = TypeError

record rowError =
  oddsError :: string
  stakeError :: string

text \<open>
  The two messages of the source are Russian text ("the odds must be a number > 1",
  "the stake must be >= 0"); they are transliterated here. Only whether a message is
  empty matters to the view.
\<close>

definition oddsMessage :: string where
  "oddsMessage = ''Koefficient dolzhen byt chislom > 1.''"

definition stakeMessage :: string where
  "stakeMessage = ''Stavka dolzhna byt >= 0.''"

text \<open>
  One iteration of the loop of \<open>validate\<close>. Reading a field of \<open>state.rows[i]\<close>
  when the row does not exist throws a TypeError.
\<close>

definition validateStep ::
  "row list \<Rightarrow> error + bool \<times> rowError list \<Rightarrow> nat \<Rightarrow> error + bool \<times> rowError list" where
  "validateStep rs acc i =
     (case acc of
        Inl e \<Rightarrow> Inl e
      | Inr (ok, errs) \<Rightarrow>
          (case elemAt rs (int i) of
             None \<Rightarrow> Inl TypeError
           | Some r \<Rightarrow>
               (let (ok1, errs1) =
                      (if \<not> isNum (odds r) \<or> nle (odds r) (Fin 1) \<or> nge (odds r) (Fin 100000)
                       then (False, errs[i := (errs ! i)\<lparr>oddsError := oddsMessage\<rparr>])
                       else (ok, errs));
                    (ok2, errs2) =
                      (if \<not> isNum (stake r) \<or> nlt (stake r) (Fin 0)
                       then (False, errs1[i := (errs1 ! i)\<lparr>stakeError := stakeMessage\<rparr>])
                       else (ok1, errs1))
                in Inr (ok2, errs2))))"

definition validate :: "state \<Rightarrow> error + bool \<times> rowError list" where
  "validate st =
     (let errors = map (\<lambda>_. \<lparr>oddsError = [], stakeError = []\<rparr>) (rows st);
          ok0 = (if \<not> isNum (bank st) \<or> nlt (bank st) (Fin 0) then False else True);
          rCount = length (filter R (rows st));
          ok1 = (if rCount < 1 then False else ok0)
      in case foldl (validateStep (rows st)) (Inr (ok1, errors)) [0..<n st] of
           Inl e \<Rightarrow> Inl e
         | Inr (ok2, errs) \<Rightarrow>
             (case fixedIndex st of
                None \<Rightarrow> Inr (ok2, errs)
              | Some j \<Rightarrow>
                  (case elemAt (rows st) j of
                     None \<Rightarrow> Inl TypeError
                   | Some fr \<Rightarrow>
                       (let ok3 = (if \<not> R fr then False else ok2);
                            ok4 = (if \<not> isNum (stake fr) \<or> nle (stake fr) (Fin 0)
                                   then False else ok3)
                        in Inr (ok4, errs)))))"

section \<open>Orchestrator\<close>

text \<open>
  What the pass reads from the page: the text of the bankroll input and which element
  has the focus (\<open>document.activeElement\<close>). The page shows one row element per row of
  the state (\<open>renderRowsOnce\<close> rebuilds them whenever \<open>n\<close> changes), so the loops over
  the row elements run over the indices below \<open>n\<close>.
\<close>

datatype active = ActiveNone | ActiveBank | ActiveStake nat | ActiveOther

record dom =
  bankInp :: display
  activeElement :: active

datatype arbPill = CheckInput | Arb bool num

datatype roiPill = NoRoi | Roi num int bool

text \<open>
  What the pass computes and paints. The pills are kept as the values their texts are
  printed from: the arbitrage flag with the inverse sum, and the ROI with the number of
  the reference row and whether the tag is the fixed-row one.
\<close>

record painted =
  valid :: bool
  rowErrors :: "rowError list"
  suggested :: "num list"
  total :: num
  payouts :: "num list"
  profits :: "num list"
  sInv :: num
  isArb :: bool
  roiRow :: int
  roi :: num
  profitText :: "display list"
  payoutText :: "display list"
  arbStatus :: arbPill
  roiStatus :: roiPill

definition solve :: "state \<Rightarrow> num list" where
  "solve st =
     (case fixedIndex st of
        Some j \<Rightarrow>
          (case suggestFromFixedRow j (rows st) of
             None \<Rightarrow> suggestFromBank (bank st) (rows st)
           | Some sug \<Rightarrow> sug)
      | None \<Rightarrow> suggestFromBank (bank st) (rows st))"

text \<open>
  One iteration of the loop that applies the suggestions. Every index below \<open>n\<close> is a
  row of the state after \<open>ensureRows\<close>; \<open>isNum(suggested[i])\<close> is false for a missing
  entry.
\<close>

definition mergeRow :: "dom \<Rightarrow> int option \<Rightarrow> num list \<Rightarrow> row list \<Rightarrow> nat \<Rightarrow> row list" where
  "mergeRow d fi sug rs i =
     (let focused = (activeElement d = ActiveStake i);
          fixed = (fi = Some (int i))
      in if i < length rs \<and> \<not> fixed \<and> \<not> manual (rs ! i) \<and> \<not> focused
            \<and> (case elemAt sug (int i) of None \<Rightarrow> False | Some v \<Rightarrow> isNum v)
         then rs[i := (rs ! i)\<lparr>stake := sug ! i\<rparr>]
         else rs)"

definition mergeStakes :: "dom \<Rightarrow> state \<Rightarrow> num list \<Rightarrow> row list" where
  "mergeStakes d st sug = foldl (mergeRow d (fixedIndex st) sug) (rows st) [0..<n st]"

definition payoutOf :: "row \<Rightarrow> num" where
  "payoutOf r = round2 (nmul (mathMax (Fin 0) (stake r)) (odds r))"

definition recalcAndPaint :: "dom \<Rightarrow> state \<Rightarrow> error + state \<times> dom \<times> painted" where
  "recalcAndPaint d st0 =
     (let st1 = ensureRows st0;
          st2 = st1\<lparr>bank := toNumber (bankInp d)\<rparr>
      in case validate st2 of
           Inl e \<Rightarrow> Inl e
         | Inr (ok, errors) \<Rightarrow>
             (let sug = solve st2;
                  st3 = st2\<lparr>rows := mergeStakes d st2 sug\<rparr>;
                  os = map odds (rows st3);
                  tot = sumStakes (rows st3);
                  d' = (if activeElement d \<noteq> ActiveBank then d\<lparr>bankInp := fmt2 tot\<rparr> else d);
                  st4 = (if activeElement d \<noteq> ActiveBank then st3\<lparr>bank := tot\<rparr> else st3);
                  pays = map payoutOf (rows st4);
                  profs = map (\<lambda>p. round2 (nsub p tot)) pays;
                  sinv = invSumOdds os;
                  arb = nlt sinv (Fin 1);
                  rr = (case fixedIndex st4 of
                          Some j \<Rightarrow> j
                        | None \<Rightarrow> (case findIndex R (rows st4) of Some k \<Rightarrow> int k | None \<Rightarrow> 0));
                  win = (case elemAt pays rr of Some p \<Rightarrow> p | None \<Rightarrow> Fin 0);
                  roi' = (if ngt tot (Fin 0) then ndiv (nsub win tot) tot else Fin 0)
              in Inr (st4, d',
                   \<lparr>valid = ok, rowErrors = errors, suggested = sug, total = tot,
                    payouts = pays, profits = profs, sInv = sinv, isArb = arb,
                    roiRow = rr, roi = roi',
                    profitText = (if ok then map fmt2 profs else map (\<lambda>_. Dash) profs),
                    payoutText = (if ok then map fmt2 pays else map (\<lambda>_. Dash) pays),
                    arbStatus = (if ok then Arb arb sinv else CheckInput),
                    roiStatus = (if ok then Roi roi' (rr + 1) (fixedIndex st4 \<noteq> None)
                                 else NoRoi)\<rparr>)))"

section \<open>The specification's side\<close>

text \<open>
  The definitions of this section are not code of the calculator: they say in the
  specification's words what the theorems compare the code with, or name what the
  proofs need.
\<close>

text \<open>What \<open>round2\<close> computes on a finite number.\<close>

definition rnd2 :: "real \<Rightarrow> real" where
  "rnd2 x = of_int \<lfloor>(x + EPSILON) * 100 + 1 / 2\<rfloor> / 100"

text \<open>The rounding tolerance of \<open>round2\<close>: half a cent and \<open>Number.EPSILON\<close>.\<close>

definition tol :: real where
  "tol = 1 / 200 + EPSILON"

text \<open>A number with two decimals: a whole number of cents.\<close>

definition cents :: "real \<Rightarrow> bool" where
  "cents x = (of_int \<lfloor>x * 100\<rfloor> = x * 100)"

text \<open>
  The inverse-odds sum in the specification's words: a row whose odds are greater than
  0 contributes \<open>1 / odds\<close> (nothing for infinite odds); any other row makes the
  sum infinite.
\<close>

definition positiveOdds :: "num \<Rightarrow> bool" where
  "positiveOdds o' = (case o' of Fin x \<Rightarrow> 0 < x | PInf \<Rightarrow> True | _ \<Rightarrow> False)"

definition inverseOf :: "num \<Rightarrow> real" where
  "inverseOf o' = (case o' of Fin x \<Rightarrow> 1 / x | _ \<Rightarrow> 0)"

text \<open>The checks of the Validator in the specification's words.\<close>

definition specBankOk :: "num \<Rightarrow> bool" where
  "specBankOk b = (case b of Fin x \<Rightarrow> 0 \<le> x | _ \<Rightarrow> False)"

definition specOddsOk :: "row \<Rightarrow> bool" where
  "specOddsOk r = (case odds r of Fin x \<Rightarrow> 1 < x \<and> x < 100000 | _ \<Rightarrow> False)"

definition specStakeOk :: "row \<Rightarrow> bool" where
  "specStakeOk r = (case stake r of Fin x \<Rightarrow> 0 \<le> x | _ \<Rightarrow> False)"

definition specFixedOk :: "row \<Rightarrow> bool" where
  "specFixedOk r = (R r \<and> (case stake r of Fin x \<Rightarrow> 0 < x | _ \<Rightarrow> False))"

definition specRowError :: "row \<Rightarrow> rowError" where
  "specRowError r =
     \<lparr>oddsError = (if specOddsOk r then [] else oddsMessage),
      stakeError = (if specStakeOk r then [] else stakeMessage)\<rparr>"

definition specValid :: "state \<Rightarrow> bool" where
  "specValid st =
     (specBankOk (bank st) \<and> list_ex R (rows st)
      \<and> list_all (\<lambda>r. specOddsOk r \<and> specStakeOk r) (rows st)
      \<and> (case fixedIndex st of None \<Rightarrow> True | Some j \<Rightarrow> specFixedOk (rows st ! nat j)))"

text \<open>The error detail of one row after its iteration of the loop of \<open>validate\<close>.\<close>

definition stepError :: "row \<Rightarrow> rowError \<Rightarrow> rowError" where
  "stepError r e =
     \<lparr>oddsError = (if specOddsOk r then oddsError e else oddsMessage),
      stakeError = (if specStakeOk r then stakeError e else stakeMessage)\<rparr>"

text \<open>The state the pass works on: rows normalised, bankroll read from the page.\<close>

abbreviation passInput :: "dom \<Rightarrow> state \<Rightarrow> state" where
  "passInput d st \<equiv> (ensureRows st)\<lparr>bank := toNumber (bankInp d)\<rparr>"

text \<open>The per-row condition under which the pass writes the suggested stake.\<close>

definition eligible :: "dom \<Rightarrow> int option \<Rightarrow> num list \<Rightarrow> row \<Rightarrow> nat \<Rightarrow> bool" where
  "eligible d fi sug r i =
     (fi \<noteq> Some (int i) \<and> \<not> manual r \<and> activeElement d \<noteq> ActiveStake i
      \<and> i < length sug \<and> isNum (sug ! i))"

text \<open>Concrete inputs: a row, a page with nothing focused, a position.\<close>

definition mkRow :: "real \<Rightarrow> real \<Rightarrow> bool \<Rightarrow> bool \<Rightarrow> row" where
  "mkRow a b c d = \<lparr>odds = Fin a, stake = Fin b, R = c, manual = d\<rparr>"

definition idle :: "real \<Rightarrow> dom" where
  "idle b = \<lparr>bankInp = Decimal b, activeElement = ActiveNone\<rparr>"

definition position :: "int option \<Rightarrow> row list \<Rightarrow> state" where
  "position fi rs = \<lparr>n = length rs, fixedIndex = fi, bank = Fin 0, rows = rs\<rparr>"

text \<open>
  The solver on real numbers. With finite odds greater than 0 and a finite bankroll
  every number of \<open>suggestFromBank\<close> is finite, and the solver computes the
  following: the odds of a row, the sums \<open>A\<close> and \<open>AR\<close>, the profit \<open>K\<close>, the
  payout a row aims at (\<open>T + K\<close> for a recipient, \<open>T\<close> otherwise), the rounded
  stakes, the residual and the stakes returned.
\<close>

definition oddsOf :: "row \<Rightarrow> real" where
  "oddsOf r = (case odds r of Fin x \<Rightarrow> x | _ \<Rightarrow> 0)"

definition finiteOdds :: "row list \<Rightarrow> bool" where
  "finiteOdds rs = list_all (\<lambda>r. case odds r of Fin x \<Rightarrow> 0 < x | _ \<Rightarrow> False) rs"

definition sumInv :: "row list \<Rightarrow> real" where
  "sumInv rs = sum_list (map (\<lambda>r. 1 / oddsOf r) rs)"

definition sumInvR :: "row list \<Rightarrow> real" where
  "sumInvR rs = sum_list (map (\<lambda>r. if R r then 1 / oddsOf r else 0) rs)"

definition kOf :: "real \<Rightarrow> row list \<Rightarrow> real" where
  "kOf T rs = (if 0 < sumInvR rs then T * (1 - sumInv rs) / sumInvR rs else 0)"

definition target :: "real \<Rightarrow> real \<Rightarrow> row \<Rightarrow> real" where
  "target T K r = (if R r then T + K else T)"

definition roundedStakes :: "real \<Rightarrow> real \<Rightarrow> row list \<Rightarrow> real list" where
  "roundedStakes T K rs = map (\<lambda>r. rnd2 (max 0 (target T K r / oddsOf r))) rs"

definition bankResidual :: "real \<Rightarrow> row list \<Rightarrow> real" where
  "bankResidual T rs = rnd2 (T - rnd2 (sum_list (roundedStakes T (kOf T rs) rs)))"

definition bankStakes :: "real \<Rightarrow> row list \<Rightarrow> real list" where
  "bankStakes T rs =
     (let xs = roundedStakes T (kOf T rs) rs; dl = bankResidual T rs
      in if 1 / 100 \<le> \<bar>dl\<bar> then
           (case findIndex R rs of
              None \<Rightarrow> xs
            | Some k \<Rightarrow> xs[k := rnd2 (max 0 (xs ! k + dl))])
         else xs)"

text \<open>
  A pass in bankroll mode whose stakes are all the solver's: no fixed row, no row
  flagged manual, no stake input focused.
\<close>

definition autoPass :: "dom \<Rightarrow> state \<Rightarrow> bool" where
  "autoPass d st =
     (fixedIndex (ensureRows st) = None
      \<and> list_all (\<lambda>r. \<not> manual r) (rows (ensureRows st))
      \<and> (case activeElement d of ActiveStake i \<Rightarrow> False | _ \<Rightarrow> True))"

text \<open>What a row adds to \<open>sumStakes\<close>.\<close>

definition stakeOf :: "row \<Rightarrow> real" where
  "stakeOf r = (case stake r of Fin x \<Rightarrow> max 0 x | _ \<Rightarrow> 0)"

text \<open>The parts of the result of a pass, and a second pass on the result of a first.\<close>

definition resState :: "error + state \<times> dom \<times> painted \<Rightarrow> state option" where
  "resState res = (case res of Inl e \<Rightarrow> None | Inr (st, d, p) \<Rightarrow> Some st)"

definition resDom :: "error + state \<times> dom \<times> painted \<Rightarrow> dom option" where
  "resDom res = (case res of Inl e \<Rightarrow> None | Inr (st, d, p) \<Rightarrow> Some d)"

definition resPainted :: "error + state \<times> dom \<times> painted \<Rightarrow> painted option" where
  "resPainted res = (case res of Inl e \<Rightarrow> None | Inr (st, d, p) \<Rightarrow> Some p)"

definition secondPass :: "dom \<Rightarrow> state \<Rightarrow> error + state \<times> dom \<times> painted" where
  "secondPass d st =
     (case recalcAndPaint d st of Inl e \<Rightarrow> Inl e | Inr (st', d', p) \<Rightarrow> recalcAndPaint d' st')"

text \<open>
  What the residual \<open>dl\<close> adds to the tolerance of the payout of row \<open>i\<close>: the
  first recipient takes it into its stake, the other rows do not.
\<close>

definition extra :: "real \<Rightarrow> row list \<Rightarrow> nat \<Rightarrow> real" where
  "extra dl rs i = (if findIndex R rs = Some i then oddsOf (rs ! i) * \<bar>dl\<bar> else 0)"

text \<open>
  The entries a solver can return (NaN, Infinity, or a non-negative number with two
  decimals), and the entries the output contract asks for.
\<close>

definition okEntry :: "num \<Rightarrow> bool" where
  "okEntry x = (case x of Fin v \<Rightarrow> 0 \<le> v \<and> cents v | PInf \<Rightarrow> True | NaN \<Rightarrow> True | NInf \<Rightarrow> False)"

definition moneyEntry :: "num \<Rightarrow> bool" where
  "moneyEntry x = (case x of Fin v \<Rightarrow> 0 \<le> v \<and> cents v | _ \<Rightarrow> False)"

text \<open>No field under active edit: neither the bankroll input nor a stake input is focused.\<close>

definition noFocus :: "dom \<Rightarrow> bool" where
  "noFocus d = (case activeElement d of ActiveBank \<Rightarrow> False | ActiveStake i \<Rightarrow> False | _ \<Rightarrow> True)"

text \<open>
  What the pass paints, as a function of the verdict of \<open>validate\<close>, the fixed index,
  the suggested stakes and the merged rows: the second half of \<open>recalcAndPaint\<close>.
\<close>

definition paint :: "bool \<Rightarrow> rowError list \<Rightarrow> int option \<Rightarrow> num list \<Rightarrow> row list \<Rightarrow> painted" where
  "paint ok errs fi sug rs =
     (let tot = sumStakes rs;
          pays = map payoutOf rs;
          profs = map (\<lambda>p. round2 (nsub p tot)) pays;
          sinv = invSumOdds (map odds rs);
          rr = (case fi of
                  Some j \<Rightarrow> j
                | None \<Rightarrow> (case findIndex R rs of Some k \<Rightarrow> int k | None \<Rightarrow> 0));
          win = (case elemAt pays rr of Some p \<Rightarrow> p | None \<Rightarrow> Fin 0);
          roi' = (if ngt tot (Fin 0) then ndiv (nsub win tot) tot else Fin 0)
      in \<lparr>valid = ok, rowErrors = errs, suggested = sug,
          total = tot, payouts = pays, profits = profs, sInv = sinv,
          isArb = nlt sinv (Fin 1), roiRow = rr, roi = roi',
          profitText = (if ok then map fmt2 profs else map (\<lambda>_. Dash) profs),
          payoutText = (if ok then map fmt2 pays else map (\<lambda>_. Dash) pays),
          arbStatus = (if ok then Arb (nlt sinv (Fin 1)) sinv else CheckInput),
          roiStatus = (if ok then Roi roi' (rr + 1) (fi \<noteq> None) else NoRoi)\<rparr>)"

section \<open>Auxiliary facts\<close>

lemma nsub_Fin [simp]: "nsub (Fin x) (Fin y) = Fin (x - y)"
  by (simp add: nsub_def)

lemma ngt_Fin [simp]: "ngt (Fin x) (Fin y) = (y < x)"
  by (simp add: ngt_def)

lemma nle_Fin [simp]: "nle (Fin x) (Fin y) = (x \<le> y)"
  by (auto simp: nle_def)

lemma nge_Fin [simp]: "nge (Fin x) (Fin y) = (y \<le> x)"
  by (simp add: nge_def)

lemma mathMax_Fin [simp]: "mathMax (Fin x) (Fin y) = Fin (max x y)"
  by (simp add: mathMax_def max_def)

lemma round2_Fin [simp]: "round2 (Fin x) = Fin (rnd2 x)"
  by (simp add: round2_def rnd2_def)

lemma isNum_iff: "isNum x = (\<exists>a. x = Fin a)"
  by (cases x) auto

lemma invTerm_cases:
  "invTerm o' = (if positiveOdds o' then Fin (inverseOf o') else PInf)"
  by (cases o') (auto simp: invTerm_def positiveOdds_def inverseOf_def ngt_def)

lemma nadd_PInf_invTerm [simp]: "nadd PInf (invTerm o') = PInf"
  by (simp add: invTerm_cases)

lemma nadd_Fin_invTerm:
  "nadd (Fin a) (invTerm o') = (if positiveOdds o' then Fin (a + inverseOf o') else PInf)"
  by (simp add: invTerm_cases)

lemma foldl_invTerm_PInf:
  "foldl (\<lambda>s o'. nadd s (invTerm o')) PInf os = PInf"
  by (induction os) auto

lemma foldl_invTerm_Fin:
  "foldl (\<lambda>s o'. nadd s (invTerm o')) (Fin a) os =
     (if list_all positiveOdds os then Fin (a + sum_list (map inverseOf os)) else PInf)"
  by (induction os arbitrary: a) (auto simp: nadd_Fin_invTerm foldl_invTerm_PInf)

lemma invSumOdds_eq:
  "invSumOdds os = (if list_all positiveOdds os then Fin (sum_list (map inverseOf os)) else PInf)"
  by (simp add: invSumOdds_def foldl_invTerm_Fin)

lemma pushRows_eq: "pushRows m rs = rs @ replicate (m - length rs) defaultRow"
proof (induction m rs rule: pushRows.induct)
  case (1 m rs)
  show ?case
  proof (cases "length rs < m")
    case True
    then have "m - length rs = Suc (m - Suc (length rs))" by simp
    with True 1 show ?thesis
      by (subst pushRows.simps) (simp add: replicate_app_Cons_same)
  next
    case False
    then show ?thesis by (subst pushRows.simps) simp
  qed
qed

lemma length_rows_ensureRows [simp]: "length (rows (ensureRows st)) = n st"
  by (simp add: ensureRows_def pushRows_eq Let_def)

lemma n_ensureRows [simp]: "n (ensureRows st) = n st"
  by (simp add: ensureRows_def Let_def)

lemma fixedIndex_ensureRows:
  "fixedIndex (ensureRows st) = Some j \<Longrightarrow> 0 \<le> j \<and> j < int (n st)"
  by (auto simp: ensureRows_def Let_def split: option.splits if_splits)

lemma odds_check: "(\<not> isNum (odds r) \<or> nle (odds r) (Fin 1) \<or> nge (odds r) (Fin 100000)) = (\<not> specOddsOk r)"
  by (cases "odds r") (auto simp: specOddsOk_def nle_def nge_def)

lemma stake_check: "(\<not> isNum (stake r) \<or> nlt (stake r) (Fin 0)) = (\<not> specStakeOk r)"
  by (cases "stake r") (auto simp: specStakeOk_def)

lemma bank_check: "(\<not> isNum b \<or> nlt b (Fin 0)) = (\<not> specBankOk b)"
  by (cases b) (auto simp: specBankOk_def)

lemma fixed_check: "(R r \<and> \<not> (\<not> isNum (stake r) \<or> nle (stake r) (Fin 0))) = specFixedOk r"
  by (cases "stake r") (auto simp: specFixedOk_def nle_def)

lemma elemAt_nat [simp]: "elemAt xs (int i) = (if i < length xs then Some (xs ! i) else None)"
  by (simp add: elemAt_def)

lemma rowError_upd:
  "e\<lparr>oddsError := a\<rparr> = \<lparr>oddsError = a, stakeError = stakeError e\<rparr>"
  "e\<lparr>stakeError := b\<rparr> = \<lparr>oddsError = oddsError e, stakeError = b\<rparr>"
  "\<lparr>oddsError = oddsError e, stakeError = stakeError e\<rparr> = e"
  by simp_all

lemma validateStep_Inr:
  assumes "i < length rs" "length errs = length rs"
  shows "validateStep rs (Inr (ok, errs)) i =
           Inr (ok \<and> specOddsOk (rs ! i) \<and> specStakeOk (rs ! i), errs[i := stepError (rs ! i) (errs ! i)])"
  using assms odds_check [of "rs ! i"] stake_check [of "rs ! i"]
  by (cases "specOddsOk (rs ! i)"; cases "specStakeOk (rs ! i)")
     (simp_all add: validateStep_def stepError_def rowError_upd)

lemma no_recipient: "(filter P xs = []) = (\<not> list_ex P xs)"
  by (induction xs) auto

lemma validate_loop:
  assumes "m \<le> length rs" "length errs = length rs"
  shows "\<exists>errs'. foldl (validateStep rs) (Inr (ok, errs)) [0..<m] =
             Inr (ok \<and> (\<forall>i<m. specOddsOk (rs ! i) \<and> specStakeOk (rs ! i)), errs')
           \<and> length errs' = length rs
           \<and> (\<forall>i<length rs. errs' ! i = (if i < m then stepError (rs ! i) (errs ! i) else errs ! i))"
  using assms
proof (induction m)
  case 0
  then show ?case by simp
next
  case (Suc m)
  then obtain errs' where e:
    "foldl (validateStep rs) (Inr (ok, errs)) [0..<m] =
       Inr (ok \<and> (\<forall>i<m. specOddsOk (rs ! i) \<and> specStakeOk (rs ! i)), errs')"
    "length errs' = length rs"
    "\<forall>i<length rs. errs' ! i = (if i < m then stepError (rs ! i) (errs ! i) else errs ! i)"
    by auto
  have m: "m < length rs" using Suc.prems by simp
  have "foldl (validateStep rs) (Inr (ok, errs)) [0..<Suc m] =
          Inr ((ok \<and> (\<forall>i<m. specOddsOk (rs ! i) \<and> specStakeOk (rs ! i)))
                 \<and> specOddsOk (rs ! m) \<and> specStakeOk (rs ! m),
               errs'[m := stepError (rs ! m) (errs' ! m)])"
    using e(1,2) m by (simp add: validateStep_Inr)
  moreover have "(ok \<and> (\<forall>i<m. specOddsOk (rs ! i) \<and> specStakeOk (rs ! i)))
                 \<and> specOddsOk (rs ! m) \<and> specStakeOk (rs ! m)
               \<longleftrightarrow> ok \<and> (\<forall>i<Suc m. specOddsOk (rs ! i) \<and> specStakeOk (rs ! i))"
    by (auto simp: less_Suc_eq)
  moreover have "\<forall>i<length rs. errs'[m := stepError (rs ! m) (errs' ! m)] ! i =
      (if i < Suc m then stepError (rs ! i) (errs ! i) else errs ! i)"
    using e(2,3) m by (auto simp: nth_list_update less_Suc_eq)
  ultimately show ?case using e(2) by simp
qed

lemma validate_rows:
  "foldl (validateStep rs) (Inr (ok, map (\<lambda>_. \<lparr>oddsError = [], stakeError = []\<rparr>) rs)) [0..<length rs] =
     Inr (ok \<and> list_all (\<lambda>r. specOddsOk r \<and> specStakeOk r) rs, map specRowError rs)"
proof -
  let ?e0 = "map (\<lambda>_. \<lparr>oddsError = [], stakeError = []\<rparr>) rs"
  obtain errs' where e:
    "foldl (validateStep rs) (Inr (ok, ?e0)) [0..<length rs] =
       Inr (ok \<and> (\<forall>i<length rs. specOddsOk (rs ! i) \<and> specStakeOk (rs ! i)), errs')"
    "length errs' = length rs"
    "\<forall>i<length rs. errs' ! i = (if i < length rs then stepError (rs ! i) (?e0 ! i) else ?e0 ! i)"
    using validate_loop [of "length rs" rs ?e0 ok] by auto
  have "errs' = map specRowError rs"
    using e(2,3) by (intro nth_equalityI) (auto simp: stepError_def specRowError_def)
  moreover have "(\<forall>i<length rs. specOddsOk (rs ! i) \<and> specStakeOk (rs ! i))
       = list_all (\<lambda>r. specOddsOk r \<and> specStakeOk r) rs"
    by (simp add: list_all_length)
  ultimately show ?thesis using e(1) by simp
qed

lemma validate_eq:
  assumes "length (rows st) = n st"
    and "\<And>j. fixedIndex st = Some j \<Longrightarrow> 0 \<le> j \<and> j < int (n st)"
  shows "validate st = Inr (specValid st, map specRowError (rows st))"
proof (cases "fixedIndex st")
  case None
  then show ?thesis
    using validate_rows [of "rows st"] bank_check [of "bank st"]
    by (cases "specBankOk (bank st)")
       (simp_all add: validate_def assms(1) [symmetric] no_recipient specValid_def)
next
  case (Some j)
  with assms have j: "0 \<le> j" "j < int (length (rows st))" by auto
  then have "elemAt (rows st) j = Some (rows st ! nat j)" by (simp add: elemAt_def)
  with Some show ?thesis
    using validate_rows [of "rows st"] bank_check [of "bank st"] fixed_check [of "rows st ! nat j"]
    by (cases "specBankOk (bank st)"; cases "specFixedOk (rows st ! nat j)")
       (auto simp: validate_def assms(1) [symmetric] no_recipient specValid_def)
qed

lemma mergeRow_eq:
  "i < length rs \<Longrightarrow>
   mergeRow d fi sug rs i = rs[i := (if eligible d fi sug (rs ! i) i then (rs ! i)\<lparr>stake := sug ! i\<rparr> else rs ! i)]"
  by (auto simp: mergeRow_def eligible_def Let_def)

lemma merge_loop:
  assumes "m \<le> length rs"
  shows "length (foldl (mergeRow d fi sug) rs [0..<m]) = length rs
       \<and> (\<forall>i<length rs. foldl (mergeRow d fi sug) rs [0..<m] ! i =
            (if i < m \<and> eligible d fi sug (rs ! i) i then (rs ! i)\<lparr>stake := sug ! i\<rparr> else rs ! i))"
  using assms
proof (induction m)
  case 0
  then show ?case by simp
next
  case (Suc m)
  let ?rs' = "foldl (mergeRow d fi sug) rs [0..<m]"
  from Suc have ih: "length ?rs' = length rs"
    "\<forall>i<length rs. ?rs' ! i =
       (if i < m \<and> eligible d fi sug (rs ! i) i then (rs ! i)\<lparr>stake := sug ! i\<rparr> else rs ! i)"
    by auto
  have m: "m < length ?rs'" using Suc.prems ih(1) by simp
  have at_m: "?rs' ! m = rs ! m" using ih(2) m ih(1) by simp
  have step: "foldl (mergeRow d fi sug) rs [0..<Suc m] =
      ?rs'[m := (if eligible d fi sug (rs ! m) m then (rs ! m)\<lparr>stake := sug ! m\<rparr> else rs ! m)]"
    using mergeRow_eq [OF m, of d fi sug] at_m by simp
  show ?case
    unfolding step using ih m by (auto simp: nth_list_update less_Suc_eq)
qed

lemma length_mergeStakes [simp]:
  "length (rows st) = n st \<Longrightarrow> length (mergeStakes d st sug) = n st"
  using merge_loop [of "n st" "rows st" d "fixedIndex st" sug] by (simp add: mergeStakes_def)

lemma nth_mergeStakes:
  "length (rows st) = n st \<Longrightarrow> i < n st \<Longrightarrow>
   mergeStakes d st sug ! i =
     (if eligible d (fixedIndex st) sug (rows st ! i) i then (rows st ! i)\<lparr>stake := sug ! i\<rparr>
      else rows st ! i)"
  using merge_loop [of "n st" "rows st" d "fixedIndex st" sug] by (simp add: mergeStakes_def)

lemma map_odds_mergeStakes [simp]:
  "length (rows st) = n st \<Longrightarrow> map odds (mergeStakes d st sug) = map odds (rows st)"
  by (rule nth_equalityI) (simp_all add: nth_mergeStakes)

lemma map_R_mergeStakes [simp]:
  "length (rows st) = n st \<Longrightarrow> map R (mergeStakes d st sug) = map R (rows st)"
  by (rule nth_equalityI) (simp_all add: nth_mergeStakes)

lemma map_manual_mergeStakes [simp]:
  "length (rows st) = n st \<Longrightarrow> map manual (mergeStakes d st sug) = map manual (rows st)"
  by (rule nth_equalityI) (simp_all add: nth_mergeStakes)

lemma length_bankRounded [simp]: "length (bankRounded b rs) = length rs"
  by (simp add: bankRounded_def)

lemma length_suggestFromBank [simp]: "length (suggestFromBank b rs) = length rs"
  by (simp add: suggestFromBank_def Let_def split: option.splits)

lemma length_suggestFromFixedRow:
  "suggestFromFixedRow j rs = Some sug \<Longrightarrow> length sug = length rs"
  by (auto simp: suggestFromFixedRow_def Let_def split: option.splits if_splits)

lemma length_solve [simp]: "length (solve st) = length (rows st)"
  by (auto simp: solve_def length_suggestFromFixedRow split: option.splits)

lemma validate_passInput:
  "validate (passInput d st) = Inr (specValid (passInput d st), map specRowError (rows (ensureRows st)))"
  using validate_eq [of "passInput d st"] fixedIndex_ensureRows [of st] by simp

lemma recalc_eq:
  "recalcAndPaint d st =
     (let st2 = passInput d st;
          sug = solve st2;
          rs = mergeStakes d st2 sug;
          tot = sumStakes rs;
          pays = map payoutOf rs;
          profs = map (\<lambda>p. round2 (nsub p tot)) pays;
          sinv = invSumOdds (map odds rs);
          rr = (case fixedIndex st2 of
                  Some j \<Rightarrow> j
                | None \<Rightarrow> (case findIndex R rs of Some k \<Rightarrow> int k | None \<Rightarrow> 0));
          win = (case elemAt pays rr of Some p \<Rightarrow> p | None \<Rightarrow> Fin 0);
          roi' = (if ngt tot (Fin 0) then ndiv (nsub win tot) tot else Fin 0);
          ok = specValid st2
      in Inr (st2\<lparr>rows := rs, bank := (if activeElement d \<noteq> ActiveBank then tot else bank st2)\<rparr>,
              d\<lparr>bankInp := (if activeElement d \<noteq> ActiveBank then fmt2 tot else bankInp d)\<rparr>,
              \<lparr>valid = ok, rowErrors = map specRowError (rows (ensureRows st)), suggested = sug,
               total = tot, payouts = pays, profits = profs, sInv = sinv,
               isArb = nlt sinv (Fin 1), roiRow = rr, roi = roi',
               profitText = (if ok then map fmt2 profs else map (\<lambda>_. Dash) profs),
               payoutText = (if ok then map fmt2 pays else map (\<lambda>_. Dash) pays),
               arbStatus = (if ok then Arb (nlt sinv (Fin 1)) sinv else CheckInput),
               roiStatus = (if ok then Roi roi' (rr + 1) (fixedIndex st2 \<noteq> None) else NoRoi)\<rparr>))"
  unfolding recalcAndPaint_def validate_passInput Let_def
  by (cases "activeElement d = ActiveBank") (simp_all cong: option.case_cong)

lemma nth_rows_ensureRows:
  "i < n st \<Longrightarrow> i < length (rows st) \<Longrightarrow> rows (ensureRows st) ! i = rows st ! i"
  by (simp add: ensureRows_def Let_def pushRows_eq nth_append)

lemma EPSILON_bounds: "0 < EPSILON" "EPSILON * 100 < 1 / 2"
  by (simp_all add: EPSILON_def)

lemma tol_pos: "0 < tol"
  using EPSILON_bounds by (simp add: tol_def)

lemma rnd2_upper: "rnd2 x \<le> x + tol"
proof -
  have "of_int \<lfloor>(x + EPSILON) * 100 + 1 / 2\<rfloor> \<le> (x + EPSILON) * 100 + 1 / 2"
    by (rule of_int_floor_le)
  then show ?thesis by (simp add: rnd2_def tol_def field_simps)
qed

lemma rnd2_lower: "x - tol \<le> rnd2 x"
proof -
  have "(x + EPSILON) * 100 + 1 / 2 < of_int \<lfloor>(x + EPSILON) * 100 + 1 / 2\<rfloor> + 1"
    by linarith
  then show ?thesis using EPSILON_bounds by (simp add: rnd2_def tol_def field_simps)
qed

lemma rnd2_near: "\<bar>rnd2 x - x\<bar> \<le> tol"
  using rnd2_upper [of x] rnd2_lower [of x] by linarith

lemma cents_rnd2 [simp]: "cents (rnd2 x)"
  by (simp add: cents_def rnd2_def)

lemma cents_iff: "cents x = (\<exists>k::int. x = of_int k / 100)"
proof
  assume "cents x"
  then obtain k :: int where "x * 100 = of_int k" by (auto simp: cents_def)
  then have "x = of_int k / 100" by simp
  then show "\<exists>k::int. x = of_int k / 100" ..
next
  assume "\<exists>k::int. x = of_int k / 100"
  then show "cents x" by (auto simp: cents_def)
qed

lemma rnd2_cents: "cents x \<Longrightarrow> rnd2 x = x"
proof -
  assume "cents x"
  then obtain k :: int where k: "x = of_int k / 100" by (auto simp: cents_iff)
  have "\<lfloor>(of_int k / 100 + EPSILON) * 100 + 1 / 2 :: real\<rfloor> = k"
    using EPSILON_bounds by (intro floor_unique) (simp_all add: field_simps)
  then show ?thesis by (simp add: rnd2_def k)
qed

lemma cents_0 [simp]: "cents 0"
  by (simp add: cents_def)

lemma cents_add: "cents x \<Longrightarrow> cents y \<Longrightarrow> cents (x + y)"
proof -
  assume "cents x" "cents y"
  then obtain k l :: int where "x = of_int k / 100" "y = of_int l / 100"
    by (auto simp: cents_iff)
  then have "x + y = of_int (k + l) / 100" by simp
  then show ?thesis unfolding cents_iff by blast
qed

lemma cents_diff: "cents x \<Longrightarrow> cents y \<Longrightarrow> cents (x - y)"
proof -
  assume "cents x" "cents y"
  then obtain k l :: int where "x = of_int k / 100" "y = of_int l / 100"
    by (auto simp: cents_iff)
  then have "x - y = of_int (k - l) / 100" by (simp add: diff_divide_distrib)
  then show ?thesis unfolding cents_iff by blast
qed

lemma rnd2_shift: "cents c \<Longrightarrow> rnd2 (x - c) = rnd2 x - c"
proof -
  assume "cents c"
  then obtain k :: int where k: "c = of_int k / 100" by (auto simp: cents_iff)
  have "(x - of_int k / 100 + EPSILON) * 100 + 1 / 2 = ((x + EPSILON) * 100 + 1 / 2) - of_int k"
    by (simp add: field_simps)
  then have "\<lfloor>(x - of_int k / 100 + EPSILON) * 100 + 1 / 2\<rfloor> = \<lfloor>(x + EPSILON) * 100 + 1 / 2\<rfloor> - k"
    by (simp only: floor_diff_of_int)
  then show ?thesis by (simp add: rnd2_def k diff_divide_distrib)
qed

lemma rnd2_nonneg: "0 \<le> x \<Longrightarrow> 0 \<le> rnd2 x"
proof -
  assume "0 \<le> x"
  then have "0 \<le> (x + EPSILON) * 100 + 1 / 2" using EPSILON_bounds by simp
  then have "0 \<le> \<lfloor>(x + EPSILON) * 100 + 1 / 2\<rfloor>" by simp
  then show ?thesis by (simp add: rnd2_def)
qed

lemma rnd2_0 [simp]: "rnd2 0 = 0"
  by (simp add: rnd2_cents)

lemma rnd2_mono: "x \<le> y \<Longrightarrow> rnd2 x \<le> rnd2 y"
  by (simp add: rnd2_def divide_right_mono floor_mono)

lemma finiteOdds_Cons [simp]:
  "finiteOdds (r # rs) = ((\<exists>x. odds r = Fin x \<and> 0 < x) \<and> finiteOdds rs)"
  by (cases "odds r") (auto simp: finiteOdds_def)

lemma finiteOdds_Nil [simp]: "finiteOdds []"
  by (simp add: finiteOdds_def)

lemma finiteOdds_nth:
  "finiteOdds rs \<Longrightarrow> i < length rs \<Longrightarrow> odds (rs ! i) = Fin (oddsOf (rs ! i)) \<and> 0 < oddsOf (rs ! i)"
  by (induction rs arbitrary: i) (auto simp: oddsOf_def nth_Cons split: nat.splits)

lemma finiteOdds_set:
  "finiteOdds rs \<Longrightarrow> r \<in> set rs \<Longrightarrow> odds r = Fin (oddsOf r) \<and> 0 < oddsOf r"
  by (metis finiteOdds_nth in_set_conv_nth)

lemma invTerm_Fin: "0 < x \<Longrightarrow> invTerm (Fin x) = Fin (1 / x)"
  by (simp add: invTerm_def)

lemma foldl_inv_finite:
  "finiteOdds rs \<Longrightarrow>
   foldl (\<lambda>s o'. nadd s (invTerm o')) (Fin a) (map odds rs) = Fin (a + sumInv rs)"
  by (induction rs arbitrary: a) (auto simp: sumInv_def invTerm_Fin oddsOf_def)

lemma invSumOdds_finite: "finiteOdds rs \<Longrightarrow> invSumOdds (map odds rs) = Fin (sumInv rs)"
  by (simp add: invSumOdds_def foldl_inv_finite)

lemma foldl_invR_finite:
  "finiteOdds rs \<Longrightarrow>
   foldl (\<lambda>s (o', r). nadd s (if r then invTerm o' else Fin 0)) (Fin a) (zip (map odds rs) (map R rs))
     = Fin (a + sumInvR rs)"
  by (induction rs arbitrary: a) (auto simp: sumInvR_def invTerm_Fin oddsOf_def)

lemma invSumR_finite: "finiteOdds rs \<Longrightarrow> invSumR (map odds rs) (map R rs) = Fin (sumInvR rs)"
  by (simp add: invSumR_def foldl_invR_finite)

lemma sumInvR_nonneg: "finiteOdds rs \<Longrightarrow> 0 \<le> sumInvR rs"
  by (induction rs) (auto simp: sumInvR_def oddsOf_def)

lemma bankT_Fin: "0 \<le> b \<Longrightarrow> bankT (Fin b) = Fin b"
  by (simp add: bankT_def orZero_def)

lemma bankK_real:
  "finiteOdds rs \<Longrightarrow> bankT b = Fin T \<Longrightarrow> bankK b rs = Fin (kOf T rs)"
  by (simp add: bankK_def Let_def invSumOdds_finite invSumR_finite kOf_def)

lemma rawStake_Fin:
  "0 < x \<Longrightarrow> rawStake (Fin T) (Fin K) (Fin x) r = Fin ((if r then T + K else T) / x)"
  by (simp add: rawStake_def)

lemma zip_map_rows:
  "map f (zip (map odds rs) (map R rs)) = map (\<lambda>r. f (odds r, R r)) rs"
  by (induction rs) auto

lemma rounded_finite:
  "finiteOdds rs \<Longrightarrow>
   map (\<lambda>s. round2 (mathMax (Fin 0) s))
     (map (\<lambda>(o', r). rawStake (Fin T) (Fin K) o' r) (zip (map odds rs) (map R rs)))
   = map Fin (roundedStakes T K rs)"
  by (induction rs) (auto simp: roundedStakes_def rawStake_Fin target_def oddsOf_def)

lemma bankRounded_real:
  "finiteOdds rs \<Longrightarrow> bankT b = Fin T \<Longrightarrow>
   bankRounded b rs = map Fin (roundedStakes T (kOf T rs) rs)"
  by (simp add: bankRounded_def bankK_real rounded_finite del: map_map)

lemma foldl_nadd_Fin: "foldl nadd (Fin a) (map Fin xs) = Fin (a + sum_list xs)"
  by (induction xs arbitrary: a) auto

lemma bankDelta_real:
  "finiteOdds rs \<Longrightarrow> bankT b = Fin T \<Longrightarrow> bankDelta b rs = Fin (bankResidual T rs)"
  by (simp add: bankDelta_def bankRounded_real foldl_nadd_Fin bankResidual_def)

lemma findIndex_less: "findIndex P xs = Some k \<Longrightarrow> k < length xs"
  by (induction xs arbitrary: k) (auto split: if_splits option.splits)

lemma suggestFromBank_real:
  assumes "finiteOdds rs" "bankT b = Fin T"
  shows "suggestFromBank b rs = map Fin (bankStakes T rs)"
proof -
  have len: "length (roundedStakes T (kOf T rs) rs) = length rs"
    by (simp add: roundedStakes_def)
  show ?thesis
    using assms len
    by (auto simp: suggestFromBank_def bankStakes_def Let_def bankRounded_real bankDelta_real
        map_update dest: findIndex_less split: option.splits)
qed

lemma bankK_finite:
  "finiteOdds rs \<Longrightarrow> 0 \<le> b \<Longrightarrow> bankK (Fin b) rs = Fin (kOf b rs)"
  by (simp add: bankK_real bankT_Fin)

lemma bankDelta_finite:
  "finiteOdds rs \<Longrightarrow> 0 \<le> b \<Longrightarrow> bankDelta (Fin b) rs = Fin (bankResidual b rs)"
  by (simp add: bankDelta_real bankT_Fin)

lemma suggestFromBank_finite:
  "finiteOdds rs \<Longrightarrow> 0 \<le> b \<Longrightarrow> suggestFromBank (Fin b) rs = map Fin (bankStakes b rs)"
  by (simp add: suggestFromBank_real bankT_Fin)

lemma findIndex_Some:
  "findIndex P xs = Some k \<Longrightarrow> k < length xs \<and> P (xs ! k) \<and> (\<forall>i<k. \<not> P (xs ! i))"
proof (induction xs arbitrary: k)
  case Nil
  then show ?case by simp
next
  case (Cons x xs)
  show ?case
  proof (cases "P x")
    case True
    with Cons.prems show ?thesis by simp
  next
    case False
    with Cons.prems obtain k' where k': "findIndex P xs = Some k'" "k = Suc k'"
      by (auto split: option.splits)
    from Cons.IH [OF k'(1)] False k'(2) show ?thesis
      by (auto simp: nth_Cons split: nat.splits)
  qed
qed

lemma findIndex_None: "(findIndex P xs = None) = (\<not> list_ex P xs)"
  by (induction xs) (auto split: option.splits)

lemma findIndex_cong: "map P xs = map P ys \<Longrightarrow> findIndex P xs = findIndex P ys"
proof (induction xs arbitrary: ys)
  case Nil
  then show ?case by simp
next
  case (Cons x xs)
  then obtain y ys' where "ys = y # ys'" by (cases ys) auto
  with Cons show ?case by auto
qed

lemma length_roundedStakes [simp]: "length (roundedStakes T K rs) = length rs"
  by (simp add: roundedStakes_def)

lemma length_bankStakes [simp]: "length (bankStakes T rs) = length rs"
  by (simp add: bankStakes_def Let_def split: option.splits)

lemma nth_roundedStakes:
  "i < length rs \<Longrightarrow>
   roundedStakes T K rs ! i = rnd2 (max 0 (target T K (rs ! i) / oddsOf (rs ! i)))"
  by (simp add: roundedStakes_def)

lemma roundedStakes_nonneg: "i < length rs \<Longrightarrow> 0 \<le> roundedStakes T K rs ! i"
  by (simp add: nth_roundedStakes rnd2_nonneg)

lemma roundedStakes_cents: "i < length rs \<Longrightarrow> cents (roundedStakes T K rs ! i)"
  by (simp add: nth_roundedStakes)

lemma bankStakes_other:
  "i < length rs \<Longrightarrow> findIndex R rs \<noteq> Some i \<Longrightarrow>
   bankStakes T rs ! i = roundedStakes T (kOf T rs) rs ! i"
  by (auto simp: bankStakes_def Let_def split: option.splits)

lemma cents_sum_list: "(\<And>x. x \<in> set xs \<Longrightarrow> cents x) \<Longrightarrow> cents (sum_list xs)"
  by (induction xs) (auto intro: cents_add)

lemma cents_sum_rounded: "cents (sum_list (roundedStakes T K rs))"
  by (rule cents_sum_list) (auto simp: roundedStakes_def)

lemma bankResidual_eq:
  "bankResidual T rs = rnd2 T - sum_list (roundedStakes T (kOf T rs) rs)"
  by (simp add: bankResidual_def rnd2_cents cents_sum_rounded rnd2_shift)

lemma cents_bankResidual: "cents (bankResidual T rs)"
  by (simp add: bankResidual_def)

lemma absorb_near:
  assumes "0 \<le> x" "cents x" "cents dl"
  shows "\<bar>rnd2 (max 0 (x + dl)) - x\<bar> \<le> \<bar>dl\<bar>"
proof (cases "0 \<le> x + dl")
  case True
  then have "rnd2 (max 0 (x + dl)) = x + dl"
    using assms by (simp add: max_def rnd2_cents cents_add)
  then show ?thesis by simp
next
  case False
  then have "rnd2 (max 0 (x + dl)) = 0" by (simp add: max_def)
  with False assms(1) show ?thesis by simp
qed

lemma bankStakes_first:
  assumes "findIndex R rs = Some k"
  shows "\<bar>bankStakes T rs ! k - roundedStakes T (kOf T rs) rs ! k\<bar> \<le> \<bar>bankResidual T rs\<bar>"
proof -
  have k: "k < length rs" using findIndex_Some [OF assms] by simp
  show ?thesis
    using assms k absorb_near [OF roundedStakes_nonneg [OF k] roundedStakes_cents [OF k] cents_bankResidual]
    by (simp add: bankStakes_def Let_def)
qed

lemma bankStakes_nonneg: "i < length rs \<Longrightarrow> 0 \<le> bankStakes T rs ! i"
proof (cases "findIndex R rs")
  case None
  then show "i < length rs \<Longrightarrow> 0 \<le> bankStakes T rs ! i"
    by (simp add: bankStakes_def Let_def roundedStakes_nonneg)
next
  case (Some k)
  then have "k < length rs" using findIndex_Some by blast
  with Some show "i < length rs \<Longrightarrow> 0 \<le> bankStakes T rs ! i"
    by (simp add: bankStakes_def Let_def nth_list_update roundedStakes_nonneg rnd2_nonneg)
qed

lemma bankStakes_cents: "i < length rs \<Longrightarrow> cents (bankStakes T rs ! i)"
proof (cases "findIndex R rs")
  case None
  then show "i < length rs \<Longrightarrow> cents (bankStakes T rs ! i)"
    by (simp add: bankStakes_def Let_def roundedStakes_cents)
next
  case (Some k)
  then have "k < length rs" using findIndex_Some by blast
  with Some show "i < length rs \<Longrightarrow> cents (bankStakes T rs ! i)"
    by (simp add: bankStakes_def Let_def nth_list_update roundedStakes_cents)
qed

text \<open>The rounded stake is near the target over the odds.\<close>

lemma bankStakes_near:
  assumes "i < length rs"
  shows "\<bar>bankStakes T rs ! i - max 0 (target T (kOf T rs) (rs ! i) / oddsOf (rs ! i))\<bar>
           \<le> tol + (if findIndex R rs = Some i then \<bar>bankResidual T rs\<bar> else 0)"
proof (cases "findIndex R rs = Some i")
  case True
  have "\<bar>roundedStakes T (kOf T rs) rs ! i - max 0 (target T (kOf T rs) (rs ! i) / oddsOf (rs ! i))\<bar> \<le> tol"
    using assms by (simp add: nth_roundedStakes rnd2_near)
  with bankStakes_first [OF True, of T] True show ?thesis by simp
next
  case False
  then show ?thesis
    using assms by (simp add: bankStakes_other nth_roundedStakes rnd2_near)
qed

text \<open>From a stake near the target over the odds to a payout near the target.\<close>

lemma payout_near:
  assumes "0 < o'" "0 \<le> s" "\<bar>s - max 0 (g / o')\<bar> \<le> e"
  shows "\<bar>rnd2 (max 0 s * o') - max 0 g\<bar> \<le> o' * e + tol"
proof -
  have m: "max 0 (g / o') = max 0 g / o'"
    using assms(1) by (simp add: max_def field_simps)
  have "\<bar>s * o' - max 0 g\<bar> = \<bar>s - max 0 g / o'\<bar> * o'"
    using assms(1) by (simp add: abs_mult_pos' [symmetric] field_simps)
  also have "\<dots> \<le> e * o'"
    using assms(1,3) m by (simp add: mult_right_mono)
  finally have "\<bar>s * o' - max 0 g\<bar> \<le> o' * e" by (simp add: mult.commute)
  moreover have "\<bar>rnd2 (s * o') - s * o'\<bar> \<le> tol" by (rule rnd2_near)
  moreover have "max 0 s = s" using assms(2) by simp
  ultimately show ?thesis by (simp add: abs_le_iff)
qed

lemma foldl_stakes:
  "foldl (\<lambda>s r. nadd s (if isNum (stake r) then mathMax (Fin 0) (stake r) else Fin 0)) (Fin a) rs
     = Fin (a + sum_list (map stakeOf rs))"
proof (induction rs arbitrary: a)
  case Nil
  then show ?case by simp
next
  case (Cons r rs)
  then show ?case by (cases "stake r") (simp_all add: stakeOf_def)
qed

lemma sumStakes_eq: "sumStakes rs = Fin (rnd2 (sum_list (map stakeOf rs)))"
  by (simp add: sumStakes_def foldl_stakes)

lemma specValid_finiteOdds:
  "list_all (\<lambda>r. specOddsOk r \<and> specStakeOk r) rs \<Longrightarrow> finiteOdds rs"
proof (induction rs)
  case Nil
  then show ?case by simp
next
  case (Cons r rs)
  then show ?case by (cases "odds r") (auto simp: specOddsOk_def)
qed

lemma auto_merge:
  assumes "length (rows st) = n st" "fixedIndex st = None"
    and "list_all (\<lambda>r. \<not> manual r) (rows st)"
    and "case activeElement d of ActiveStake i \<Rightarrow> False | _ \<Rightarrow> True"
    and "length xs = n st" "i < n st"
  shows "mergeStakes d st (map Fin xs) ! i = (rows st ! i)\<lparr>stake := Fin (xs ! i)\<rparr>"
proof -
  have "\<not> manual (rows st ! i)"
    using assms(1,3,6) by (simp add: list_all_length)
  moreover have "activeElement d \<noteq> ActiveStake i"
    using assms(4) by (cases "activeElement d") auto
  ultimately show ?thesis
    using assms by (simp add: nth_mergeStakes eligible_def)
qed

lemma payout_Fin:
  "odds r = Fin o' \<Longrightarrow> stake r = Fin s \<Longrightarrow> payoutOf r = Fin (rnd2 (max 0 s * o'))"
  by (simp add: payoutOf_def)

lemma profit_Fin:
  "cents t \<Longrightarrow> round2 (nsub (Fin (rnd2 y)) (Fin t)) = Fin (rnd2 y - t)"
  by (simp add: rnd2_shift rnd2_cents)

lemma bank_pass:
  assumes "specValid (passInput d st)" "autoPass d st"
  shows "\<exists>st' d' p T t. recalcAndPaint d st = Inr (st', d', p)
           \<and> toNumber (bankInp d) = Fin T \<and> 0 \<le> T \<and> total p = Fin t
           \<and> finiteOdds (rows (ensureRows st))
           \<and> map odds (rows st') = map odds (rows (ensureRows st))
           \<and> map R (rows st') = map R (rows (ensureRows st))
           \<and> suggested p = map Fin (bankStakes T (rows (ensureRows st)))
           \<and> (\<forall>i<n st.
                 stake (rows st' ! i) = Fin (bankStakes T (rows (ensureRows st)) ! i)
               \<and> profits p ! i =
                   Fin (rnd2 (max 0 (bankStakes T (rows (ensureRows st)) ! i)
                                * oddsOf (rows (ensureRows st) ! i)) - t))"
proof -
  let ?rs = "rows (ensureRows st)"
  let ?st2 = "passInput d st"
  from assms(1) obtain T where T: "toNumber (bankInp d) = Fin T" "0 \<le> T"
    by (cases "toNumber (bankInp d)") (auto simp: specValid_def specBankOk_def)
  have fo: "finiteOdds ?rs"
    using assms(1) by (simp add: specValid_def specValid_finiteOdds)
  have fi: "fixedIndex ?st2 = None"
    using assms(2) by (simp add: autoPass_def)
  have sug: "solve ?st2 = map Fin (bankStakes T ?rs)"
    using fi T fo by (simp add: solve_def suggestFromBank_finite)
  let ?xs = "bankStakes T ?rs"
  let ?rs' = "mergeStakes d ?st2 (map Fin ?xs)"
  have nth: "?rs' ! i = (?rs ! i)\<lparr>stake := Fin (?xs ! i)\<rparr>" if "i < n st" for i
    using auto_merge [of ?st2 d ?xs i] assms(2) fi that by (simp add: autoPass_def)
  obtain t where t: "sumStakes ?rs' = Fin t" "cents t"
    by (simp add: sumStakes_eq)
  have prof: "map (\<lambda>q. round2 (nsub q (Fin t))) (map payoutOf ?rs') ! i
                = Fin (rnd2 (max 0 (?xs ! i) * oddsOf (?rs ! i)) - t)" if "i < n st" for i
  proof -
    have o: "odds (?rs ! i) = Fin (oddsOf (?rs ! i))"
      using finiteOdds_nth [OF fo, of i] that by simp
    have "payoutOf (?rs' ! i) = Fin (rnd2 (max 0 (?xs ! i) * oddsOf (?rs ! i)))"
      using o by (simp add: nth [OF that] payout_Fin)
    then show ?thesis
      using that t(2) by (simp add: rnd2_shift rnd2_cents)
  qed
  show ?thesis
    unfolding recalc_eq Let_def
    using T fo sug t(1) nth prof by simp
qed

lemma bankK_cong:
  "map odds rs = map odds rs' \<Longrightarrow> map R rs = map R rs' \<Longrightarrow> bankK b rs = bankK b rs'"
  by (simp add: bankK_def)

lemma bankDelta_cong:
  "map odds rs = map odds rs' \<Longrightarrow> map R rs = map R rs' \<Longrightarrow> bankDelta b rs = bankDelta b rs'"
  by (simp add: bankDelta_def bankRounded_def bankK_cong [of rs rs'])

lemma oddsOf_cong:
  "map odds rs = map odds rs' \<Longrightarrow> i < length rs \<Longrightarrow> oddsOf (rs ! i) = oddsOf (rs' ! i)"
  by (metis length_map nth_map oddsOf_def)

lemma R_cong:
  "map R rs = map R rs' \<Longrightarrow> i < length rs \<Longrightarrow> R (rs ! i) = R (rs' ! i)"
  by (metis length_map nth_map)

lemma extra_cong:
  "map odds rs = map odds rs' \<Longrightarrow> map R rs = map R rs' \<Longrightarrow> i < length rs \<Longrightarrow>
   extra dl rs i = extra dl rs' i"
  by (simp add: extra_def findIndex_cong [of R rs rs'] oddsOf_cong [of rs rs'])

lemma bank_profit_near:
  assumes "specValid (passInput d st)" "autoPass d st"
  shows "\<exists>st' d' p T K t dl. recalcAndPaint d st = Inr (st', d', p)
           \<and> toNumber (bankInp d) = Fin T \<and> 0 \<le> T
           \<and> bankK (Fin T) (rows st') = Fin K \<and> bankDelta (Fin T) (rows st') = Fin dl
           \<and> total p = Fin t \<and> length (rows st') = n st
           \<and> (\<forall>i<n st. \<exists>x. profits p ! i = Fin x
                 \<and> \<bar>x - (max 0 (target T K (rows st' ! i)) - t)\<bar>
                     \<le> (oddsOf (rows st' ! i) + 1) * tol + extra dl (rows st') i)"
proof -
  let ?rs = "rows (ensureRows st)"
  from bank_pass [OF assms] obtain st' d' p T t where
    r: "recalcAndPaint d st = Inr (st', d', p)" "toNumber (bankInp d) = Fin T" "0 \<le> T"
       "total p = Fin t" "finiteOdds ?rs"
       "map odds (rows st') = map odds ?rs" "map R (rows st') = map R ?rs"
    and i: "\<forall>i<n st. stake (rows st' ! i) = Fin (bankStakes T ?rs ! i)
              \<and> profits p ! i = Fin (rnd2 (max 0 (bankStakes T ?rs ! i) * oddsOf (?rs ! i)) - t)"
    by blast
  have len: "length (rows st') = n st"
    using r(6) length_rows_ensureRows [of st] by (metis length_map)
  have K: "bankK (Fin T) (rows st') = Fin (kOf T ?rs)"
    using bankK_cong [OF r(6,7)] bankK_finite [OF r(5,3)] by simp
  have dl: "bankDelta (Fin T) (rows st') = Fin (bankResidual T ?rs)"
    using bankDelta_cong [OF r(6,7)] bankDelta_finite [OF r(5,3)] by simp
  have "\<exists>x. profits p ! i = Fin x
          \<and> \<bar>x - (max 0 (target T (kOf T ?rs) (rows st' ! i)) - t)\<bar>
              \<le> (oddsOf (rows st' ! i) + 1) * tol + extra (bankResidual T ?rs) (rows st') i"
    if "i < n st" for i
  proof -
    let ?o = "oddsOf (?rs ! i)" and ?s = "bankStakes T ?rs ! i"
    let ?e = "tol + (if findIndex R ?rs = Some i then \<bar>bankResidual T ?rs\<bar> else 0)"
    have il: "i < length ?rs" using that by simp
    have o: "0 < ?o" using finiteOdds_nth [OF r(5) il] by simp
    have "\<bar>rnd2 (max 0 ?s * ?o) - max 0 (target T (kOf T ?rs) (?rs ! i))\<bar> \<le> ?o * ?e + tol"
      using payout_near [OF o bankStakes_nonneg [OF il] bankStakes_near [OF il]] .
    moreover have "?o * ?e + tol = (?o + 1) * tol + extra (bankResidual T ?rs) ?rs i"
      by (simp add: extra_def algebra_simps)
    moreover have "target T (kOf T ?rs) (rows st' ! i) = target T (kOf T ?rs) (?rs ! i)"
      using R_cong [OF r(7), of i] that len by (simp add: target_def)
    moreover have "oddsOf (rows st' ! i) = ?o"
      using oddsOf_cong [OF r(6), of i] that len by simp
    moreover have "extra (bankResidual T ?rs) (rows st') i = extra (bankResidual T ?rs) ?rs i"
      using extra_cong [OF r(6,7), of i] that len by simp
    ultimately show ?thesis using i that by simp
  qed
  with r K dl len show ?thesis by blast
qed

lemma sum_list_upd:
  "k < length xs \<Longrightarrow> sum_list (xs[k := v]) = sum_list xs - xs ! k + (v :: real)"
  by (induction xs arbitrary: k) (auto simp: nth_Cons split: nat.splits)

lemma cents_small: "cents x \<Longrightarrow> \<bar>x\<bar> < 1 / 100 \<Longrightarrow> x = 0"
proof -
  assume "cents x" "\<bar>x\<bar> < 1 / 100"
  then obtain k :: int where k: "x = of_int k / 100" "\<bar>of_int k / 100 :: real\<bar> < 1 / 100"
    by (auto simp: cents_iff)
  then have "\<bar>of_int k :: real\<bar> < 1" by simp
  then have "\<bar>k\<bar> < 1" by linarith
  then show ?thesis using k(1) by simp
qed

lemma bankStakes_sum:
  assumes "findIndex R rs = Some k"
  shows "sum_list (bankStakes T rs)
           = rnd2 T + max 0 (- (roundedStakes T (kOf T rs) rs ! k + bankResidual T rs))"
proof -
  let ?xs = "roundedStakes T (kOf T rs) rs" and ?dl = "bankResidual T rs"
  have k: "k < length ?xs" using findIndex_Some [OF assms] by simp
  have kr: "k < length rs" using k by simp
  have dl: "?dl = rnd2 T - sum_list ?xs" by (rule bankResidual_eq)
  have nn: "0 \<le> ?xs ! k" by (rule roundedStakes_nonneg [OF kr])
  show ?thesis
  proof (cases "1 / 100 \<le> \<bar>?dl\<bar>")
    case True
    then have st: "bankStakes T rs = ?xs[k := rnd2 (max 0 (?xs ! k + ?dl))]"
      using assms by (simp add: bankStakes_def Let_def)
    show ?thesis
    proof (cases "0 \<le> ?xs ! k + ?dl")
      case True
      then have "rnd2 (max 0 (?xs ! k + ?dl)) = ?xs ! k + ?dl"
        by (simp add: max_def rnd2_cents cents_add roundedStakes_cents [OF kr] cents_bankResidual)
      then show ?thesis using True dl by (simp add: st sum_list_upd [OF k])
    next
      case False
      then have "rnd2 (max 0 (?xs ! k + ?dl)) = 0" by (simp add: max_def)
      then show ?thesis using False dl by (simp add: st sum_list_upd [OF k])
    qed
  next
    case False
    then have "?dl = 0" using cents_small [OF cents_bankResidual, of T rs] by simp
    moreover have "bankStakes T rs = ?xs" using False by (simp add: bankStakes_def Let_def)
    ultimately show ?thesis using dl nn by simp
  qed
qed

lemma sum_targets:
  "sum_list (map (\<lambda>r. target T K r / oddsOf r) rs)
     = T * (sumInv rs - sumInvR rs) + (T + K) * sumInvR rs"
  by (induction rs) (auto simp: sumInv_def sumInvR_def target_def algebra_simps add_divide_distrib)

lemma sum_list_near:
  "(\<And>x. x \<in> set xs \<Longrightarrow> \<bar>f x - g x\<bar> \<le> (e :: real)) \<Longrightarrow>
   \<bar>sum_list (map f xs) - sum_list (map g xs)\<bar> \<le> real (length xs) * e"
proof (induction xs)
  case Nil
  then show ?case by simp
next
  case (Cons x xs)
  then have "\<bar>f x - g x\<bar> \<le> e"
    and "\<bar>sum_list (map f xs) - sum_list (map g xs)\<bar> \<le> real (length xs) * e"
    by auto
  then show ?case by (simp add: algebra_simps abs_le_iff)
qed

lemma conservation_algebra:
  assumes "dn \<noteq> 0" "dn = 1 - A + AR" "T = c * AR / dn"
  shows "T * (A - AR) + c * AR = (T :: real)"
proof -
  have "T * dn = c * AR" using assms(1,3) by simp
  then have "T * (A - AR) + c * AR = T * (A - AR + dn)" by (simp add: algebra_simps)
  also have "\<dots> = T" using assms(2) by simp
  finally show ?thesis .
qed

lemma fixedDenom_finite:
  "finiteOdds rs \<Longrightarrow> fixedDenom rs = Fin (1 - sumInv rs + sumInvR rs)"
  by (simp add: fixedDenom_def Let_def invSumOdds_finite invSumR_finite)

lemma fixedSj_Fin: "stake fr = Fin s \<Longrightarrow> 0 \<le> s \<Longrightarrow> fixedSj fr = Fin s"
  by (simp add: fixedSj_def orZero_def)

lemma fixed_conservation:
  assumes fo: "finiteOdds rs"
    and j: "0 \<le> j" "j < int (length rs)"
    and fr: "R (rs ! nat j)" "stake (rs ! nat j) = Fin s" "0 \<le> s"
    and dn: "fixedDenom rs = Fin dn" "1 / 10 ^ 12 \<le> dn"
  shows "\<exists>sug T S. suggestFromFixedRow j rs = Some sug
           \<and> fixedT (rs ! nat j) rs = Fin T \<and> T = s * oddsOf (rs ! nat j) * sumInvR rs / dn
           \<and> foldl nadd (Fin 0) sug = Fin S
           \<and> \<bar>S - T\<bar> \<le> real (length rs) * tol"
proof -
  let ?fr = "rs ! nat j" and ?o = "oddsOf (rs ! nat j)"
  let ?T = "s * ?o * sumInvR rs / dn"
  let ?K = "s * ?o - ?T"
  have jl: "nat j < length rs" using j by simp
  have at: "elemAt rs j = Some ?fr" using j by (simp add: elemAt_def)
  have o: "odds ?fr = Fin ?o" "0 < ?o" using finiteOdds_nth [OF fo jl] by simp_all
  have dn': "dn = 1 - sumInv rs + sumInvR rs"
    using dn(1) fixedDenom_finite [OF fo] by simp
  have dpos: "0 < dn" using dn(2) by (simp add: order.strict_trans2)
  have nd: "\<not> \<bar>dn\<bar> < 1 / 10 ^ 12" using dn(2) by simp
  have T: "fixedT ?fr rs = Fin ?T"
    using nd dpos by (simp add: fixedT_def Let_def dn(1) fixedSj_Fin [OF fr(2,3)] o(1) invSumR_finite [OF fo])
  have K: "fixedK ?fr rs = Fin ?K"
    using nd dpos by (simp add: fixedK_def Let_def dn(1) fixedSj_Fin [OF fr(2,3)] o(1) T)
  have Tnn: "0 \<le> ?T"
    using fr(3) o(2) sumInvR_nonneg [OF fo] dpos by simp
  have TK: "?T + ?K = s * ?o" by simp
  have own: "roundedStakes ?T ?K rs ! nat j = rnd2 s"
    using jl fr(1,3) o(2) by (simp add: nth_roundedStakes target_def)
  have sug: "suggestFromFixedRow j rs = Some (map Fin (roundedStakes ?T ?K rs))"
  proof -
    have "(map Fin (roundedStakes ?T ?K rs))[nat j := Fin (rnd2 s)] = map Fin (roundedStakes ?T ?K rs)"
      using own jl by (simp add: list_update_same_conv)
    then show ?thesis
      using at fr(1)
      by (simp add: suggestFromFixedRow_def Let_def T K rounded_finite [OF fo]
          fixedSj_Fin [OF fr(2,3)] del: map_map)
  qed
  have raw: "sum_list (map (\<lambda>r. target ?T ?K r / oddsOf r) rs) = ?T"
    using conservation_algebra [of dn "sumInv rs" "sumInvR rs" ?T "s * ?o"] dpos dn'
    by (simp only: sum_targets TK) simp
  have near: "\<bar>rnd2 (max 0 (target ?T ?K r / oddsOf r)) - target ?T ?K r / oddsOf r\<bar> \<le> tol"
    if "r \<in> set rs" for r
  proof -
    have "0 < oddsOf r" using finiteOdds_set [OF fo that] by simp
    moreover have "0 \<le> target ?T ?K r"
      using Tnn TK fr(3) o(2) by (simp add: target_def)
    ultimately have "max 0 (target ?T ?K r / oddsOf r) = target ?T ?K r / oddsOf r"
      by simp
    then show ?thesis by (simp add: rnd2_near)
  qed
  have "\<bar>sum_list (roundedStakes ?T ?K rs) - ?T\<bar> \<le> real (length rs) * tol"
    using sum_list_near [of rs "\<lambda>r. rnd2 (max 0 (target ?T ?K r / oddsOf r))"
        "\<lambda>r. target ?T ?K r / oddsOf r" tol] near raw
    by (simp add: roundedStakes_def)
  then show ?thesis
    using sug T by (simp add: foldl_nadd_Fin)
qed

lemma round2_PInf [simp]: "round2 PInf = PInf"
  by (simp add: round2_def infOfSign_def)

lemma round2_NaN [simp]: "round2 NaN = NaN"
  by (simp add: round2_def)

lemma okEntry_round2_max: "okEntry (round2 (mathMax (Fin 0) y))"
  by (cases y) (simp_all add: okEntry_def mathMax_def rnd2_nonneg)

lemma okEntry_set_update:
  "list_all okEntry xs \<Longrightarrow> okEntry v \<Longrightarrow> list_all okEntry (xs[k := v])"
  by (induction xs arbitrary: k) (auto split: nat.splits)

lemma okEntry_rounded: "list_all okEntry (map (\<lambda>s. round2 (mathMax (Fin 0) s)) ys)"
  by (simp add: list_all_iff okEntry_round2_max)

lemma okEntry_bankRounded: "list_all okEntry (bankRounded b rs)"
  unfolding bankRounded_def by (rule okEntry_rounded)

lemma okEntry_suggestFromBank: "list_all okEntry (suggestFromBank b rs)"
  by (simp add: suggestFromBank_def Let_def okEntry_bankRounded okEntry_set_update
      okEntry_round2_max split: option.splits)

lemma okEntry_suggestFromFixedRow:
  assumes "suggestFromFixedRow j rs = Some sug"
  shows "list_all okEntry sug"
proof -
  from assms obtain fr where
    "sug = (map (\<lambda>s. round2 (mathMax (Fin 0) s))
              (map (\<lambda>(o', r). rawStake (fixedT fr rs) (fixedK fr rs) o' r)
                 (zip (map odds rs) (map R rs))))[nat j := round2 (fixedSj fr)]"
    by (auto simp: suggestFromFixedRow_def Let_def split: option.splits if_splits)
  then show ?thesis
    unfolding fixedSj_def
    by (simp only: okEntry_set_update [OF okEntry_rounded okEntry_round2_max])
qed

lemma moneyEntry_Fin: "moneyEntry (Fin v) = (0 \<le> v \<and> cents v)"
  by (simp add: moneyEntry_def)

lemma isNum_okEntry: "okEntry x \<Longrightarrow> isNum x \<Longrightarrow> moneyEntry x"
  by (cases x) (auto simp: okEntry_def moneyEntry_def)

lemma bankT_cases: "b \<noteq> PInf \<Longrightarrow> \<exists>T. bankT b = Fin T \<and> 0 \<le> T"
  by (cases b) (auto simp: bankT_def orZero_def mathMax_def)

lemma moneyEntry_bankStakes: "list_all moneyEntry (map Fin (bankStakes T rs))"
  by (simp add: list_all_length moneyEntry_Fin bankStakes_nonneg bankStakes_cents)

lemma moneyEntry_suggestFromBank:
  "finiteOdds rs \<Longrightarrow> b \<noteq> PInf \<Longrightarrow> list_all moneyEntry (suggestFromBank b rs)"
  using bankT_cases [of b] by (auto simp: suggestFromBank_real moneyEntry_bankStakes)

lemma fixedSj_cases: "stake fr \<noteq> PInf \<Longrightarrow> \<exists>s. fixedSj fr = Fin s \<and> 0 \<le> s"
  by (cases "stake fr") (auto simp: fixedSj_def orZero_def mathMax_def)

lemma fixedTK_real:
  assumes "finiteOdds rs" "fixedSj fr = Fin s" "odds fr = Fin o'"
  shows "\<exists>T K. fixedT fr rs = Fin T \<and> fixedK fr rs = Fin K"
proof (cases "\<bar>1 - sumInv rs + sumInvR rs\<bar> < 1 / 10 ^ 12")
  case True
  then show ?thesis
    using assms by (simp add: fixedT_def fixedK_def Let_def fixedDenom_finite)
next
  case False
  then have "1 - sumInv rs + sumInvR rs \<noteq> 0" by auto
  with False show ?thesis
    using assms by (simp add: fixedT_def fixedK_def Let_def fixedDenom_finite invSumR_finite)
qed

lemma moneyEntry_suggestFromFixedRow:
  assumes "finiteOdds rs" "suggestFromFixedRow j rs = Some sug" "stake (rs ! nat j) \<noteq> PInf"
  shows "list_all moneyEntry sug"
proof -
  from assms(2) have j: "0 \<le> j" "j < int (length rs)"
    by (auto simp: suggestFromFixedRow_def elemAt_def split: if_splits)
  let ?fr = "rs ! nat j"
  have at: "elemAt rs j = Some ?fr" using j by (simp add: elemAt_def)
  obtain s where s: "fixedSj ?fr = Fin s" "0 \<le> s" using fixedSj_cases [OF assms(3)] by blast
  have o: "odds ?fr = Fin (oddsOf ?fr)"
    using finiteOdds_nth [OF assms(1), of "nat j"] j by simp
  obtain T K where TK: "fixedT ?fr rs = Fin T" "fixedK ?fr rs = Fin K"
    using fixedTK_real [OF assms(1) s(1) o] by blast
  have "sug = (map Fin (roundedStakes T K rs))[nat j := Fin (rnd2 s)]"
    using assms(2) at
    by (simp add: suggestFromFixedRow_def Let_def TK s rounded_finite [OF assms(1)]
        del: map_map split: if_splits)
  then have "sug = map Fin ((roundedStakes T K rs)[nat j := rnd2 s])"
    by (simp add: map_update)
  moreover have "0 \<le> (roundedStakes T K rs)[nat j := rnd2 s] ! i
      \<and> cents ((roundedStakes T K rs)[nat j := rnd2 s] ! i)" if "i < length rs" for i
    using that s(2) j
    by (simp add: nth_list_update roundedStakes_nonneg roundedStakes_cents rnd2_nonneg)
  ultimately show ?thesis
    by (simp add: list_all_length moneyEntry_Fin)
qed

lemma foldl_invR_none:
  "\<not> list_ex R rs \<Longrightarrow>
   foldl (\<lambda>s (o', r). nadd s (if r then invTerm o' else Fin 0)) (Fin a) (zip (map odds rs) (map R rs))
     = Fin a"
  by (induction rs arbitrary: a) auto

lemma bankK_none: "\<not> list_ex R rs \<Longrightarrow> bankK b rs = Fin 0"
  by (simp add: bankK_def Let_def invSumR_def foldl_invR_none)

lemma nth_bankRounded:
  "i < length rs \<Longrightarrow>
   bankRounded b rs ! i
     = round2 (mathMax (Fin 0) (rawStake (bankT b) (bankK b rs) (odds (rs ! i)) (R (rs ! i))))"
  by (simp add: bankRounded_def zip_map_rows del: map_map)

lemma suggestFromBank_other:
  "i < length rs \<Longrightarrow> findIndex R rs \<noteq> Some i \<Longrightarrow>
   suggestFromBank b rs ! i = bankRounded b rs ! i"
  by (auto simp: suggestFromBank_def Let_def split: option.splits)

lemma bankT_form: "(\<exists>t. bankT b = Fin t \<and> 0 \<le> t) \<or> bankT b = PInf"
  by (cases b) (auto simp: bankT_def orZero_def mathMax_def)

lemma max_div_bankT:
  assumes "\<not> nle o' (Fin 0)"
  shows "mathMax (Fin 0) (ndiv (bankT b) o') = ndiv (bankT b) o'"
proof -
  consider t where "bankT b = Fin t" "0 \<le> t" | "bankT b = PInf"
    using bankT_form [of b] by blast
  then show ?thesis
  proof cases
    case 1
    with assms show ?thesis
      by (cases o') (auto simp: nle_def mathMax_def max_def zero_less_divide_iff)
  next
    case 2
    with assms show ?thesis
      by (cases o') (auto simp: nle_def mathMax_def infOfSign_def)
  qed
qed

lemma rawStake_nonpositive: "nle o' (Fin 0) \<Longrightarrow> rawStake T K o' r = Fin 0"
  by (simp add: rawStake_def)

lemma bankRounded_nonpositive:
  "i < length rs \<Longrightarrow> nle (odds (rs ! i)) (Fin 0) \<Longrightarrow> bankRounded b rs ! i = Fin 0"
  by (simp add: nth_bankRounded rawStake_nonpositive)

lemma suggestFromBank_none:
  assumes "\<not> list_ex R rs" "i < length rs"
  shows "suggestFromBank b rs ! i
           = (if nle (odds (rs ! i)) (Fin 0) then Fin 0 else round2 (ndiv (bankT b) (odds (rs ! i))))"
proof -
  have "findIndex R rs = None" using assms(1) by (simp add: findIndex_None)
  then have "suggestFromBank b rs ! i = bankRounded b rs ! i"
    using assms(2) by (simp add: suggestFromBank_other)
  moreover have "\<not> R (rs ! i)"
    using assms by (auto simp: list_ex_length)
  ultimately show ?thesis
    using assms(2) by (simp add: nth_bankRounded rawStake_def max_div_bankT)
qed

lemma suggestFromFixedRow_nonpositive:
  assumes "suggestFromFixedRow j rs = Some sug" "i < length rs" "i \<noteq> nat j"
    and "nle (odds (rs ! i)) (Fin 0)"
  shows "sug ! i = Fin 0"
proof -
  from assms(1) obtain fr where
    "sug = (map (\<lambda>s. round2 (mathMax (Fin 0) s))
              (map (\<lambda>(o', r). rawStake (fixedT fr rs) (fixedK fr rs) o' r)
                 (zip (map odds rs) (map R rs))))[nat j := round2 (fixedSj fr)]"
    by (auto simp: suggestFromFixedRow_def Let_def split: option.splits if_splits)
  then show ?thesis
    using assms(2-4) by (simp add: zip_map_rows rawStake_nonpositive del: map_map)
qed

lemma ensureRows_id:
  assumes "length (rows st) = n st"
    and "\<And>j. fixedIndex st = Some j \<Longrightarrow> 0 \<le> j \<and> j < int (n st)"
  shows "ensureRows st = st"
proof -
  have "take (n st) (pushRows (n st) (rows st)) = rows st"
    using assms(1) by (simp add: pushRows_eq)
  moreover have "(case fixedIndex st of None \<Rightarrow> None
      | Some j \<Rightarrow> if j < 0 \<or> j \<ge> int (n st) then None else Some j) = fixedIndex st"
    using assms(2) by (cases "fixedIndex st") auto
  ultimately show ?thesis by (simp add: ensureRows_def Let_def)
qed

lemma sumStakes_cents: "\<exists>t. sumStakes rs = Fin t \<and> cents t \<and> 0 \<le> t"
proof -
  have "0 \<le> sum_list (map stakeOf rs)"
    by (rule sum_list_nonneg) (auto simp: stakeOf_def split: num.splits)
  then show ?thesis by (simp add: sumStakes_eq rnd2_nonneg)
qed

lemma toNumber_fmt2: "cents t \<Longrightarrow> toNumber (fmt2 (Fin t)) = Fin t"
  by (simp add: rnd2_cents)

lemma bankRounded_cong:
  "bankT b = bankT b' \<Longrightarrow> map odds rs = map odds rs' \<Longrightarrow> map R rs = map R rs' \<Longrightarrow>
   bankRounded b rs = bankRounded b' rs'"
  by (simp add: bankRounded_def bankK_def Let_def)

lemma suggestFromBank_cong:
  assumes "bankT b = bankT b'" "map odds rs = map odds rs'" "map R rs = map R rs'"
  shows "suggestFromBank b rs = suggestFromBank b' rs'"
proof -
  have "bankRounded b rs = bankRounded b' rs'" using assms by (rule bankRounded_cong)
  moreover have "findIndex R rs = findIndex R rs'" using assms(3) by (rule findIndex_cong)
  ultimately show ?thesis using assms(1) by (simp add: suggestFromBank_def bankDelta_def Let_def)
qed

lemma suggestFromFixedRow_cong:
  assumes "map odds rs = map odds rs'" "map R rs = map R rs'" "rs ! nat j = rs' ! nat j"
  shows "suggestFromFixedRow j rs = suggestFromFixedRow j rs'"
proof -
  have len: "length rs = length rs'" using assms(1) by (metis length_map)
  have at: "elemAt rs j = elemAt rs' j" using len assms(3) by (simp add: elemAt_def)
  have T: "fixedT fr rs = fixedT fr rs'" for fr
    using assms(1,2) by (simp add: fixedT_def fixedDenom_def Let_def)
  have K: "fixedK fr rs = fixedK fr rs'" for fr
    using assms(1,2) T by (simp add: fixedK_def fixedDenom_def Let_def)
  show ?thesis
    using assms(1,2) by (simp add: suggestFromFixedRow_def at T K Let_def cong: option.case_cong if_cong)
qed

lemma merge_again:
  assumes "length (rows st) = n st" and that: "activeElement d' = activeElement d"
  shows "mergeStakes d' (st\<lparr>rows := mergeStakes d st sug, bank := b\<rparr>) sug = mergeStakes d st sug"
proof (rule nth_equalityI)
  let ?st' = "st\<lparr>rows := mergeStakes d st sug, bank := b\<rparr>"
  have len: "length (rows ?st') = n ?st'" using assms by simp
  show "length (mergeStakes d' ?st' sug) = length (mergeStakes d st sug)"
    using assms len by simp
  fix i assume "i < length (mergeStakes d' ?st' sug)"
  then have i: "i < n st" using len by simp
  have e: "eligible d' fi sug r i = eligible d fi sug r i" for fi r
    using that by (simp add: eligible_def)
  show "mergeStakes d' ?st' sug ! i = mergeStakes d st sug ! i"
    using i assms nth_mergeStakes [OF len, of i d' sug] nth_mergeStakes [OF assms(1) i, of d sug]
    by (simp add: e eligible_def)
qed

lemma fixed_row_kept:
  assumes "length (rows st) = n st" "fixedIndex st = Some j" "0 \<le> j" "j < int (n st)"
  shows "mergeStakes d st sug ! nat j = rows st ! nat j"
  using assms by (simp add: nth_mergeStakes eligible_def)

lemma solve_again:
  assumes len: "length (rows st) = n st"
    and fi: "\<And>j. fixedIndex st = Some j \<Longrightarrow> 0 \<le> j \<and> j < int (n st)"
    and h: "(\<exists>j. fixedIndex st = Some j \<and> R (rows st ! nat j)) \<or> bankT b = bankT (bank st)"
  shows "solve (st\<lparr>rows := mergeStakes d st sug, bank := b\<rparr>) = solve st"
proof -
  let ?rs = "mergeStakes d st sug"
  have o: "map odds ?rs = map odds (rows st)" and r: "map R ?rs = map R (rows st)"
    using len by simp_all
  show ?thesis
  proof (cases "fixedIndex st")
    case None
    with h have "bankT b = bankT (bank st)" by simp
    then show ?thesis
      using None suggestFromBank_cong [OF _ o r] by (simp add: solve_def)
  next
    case (Some j)
    have j: "0 \<le> j" "j < int (n st)" using fi [OF Some] by simp_all
    have same: "suggestFromFixedRow j ?rs = suggestFromFixedRow j (rows st)"
      using suggestFromFixedRow_cong [OF o r] fixed_row_kept [OF len Some j] by simp
    show ?thesis
    proof (cases "suggestFromFixedRow j (rows st)")
      case (Some s)
      then show ?thesis using \<open>fixedIndex st = Some j\<close> same by (simp add: solve_def)
    next
      case None
      then have "\<not> R (rows st ! nat j)"
        using j len by (auto simp: suggestFromFixedRow_def elemAt_def Let_def split: if_splits)
      with h \<open>fixedIndex st = Some j\<close> have "bankT b = bankT (bank st)" by simp
      then show ?thesis
        using None \<open>fixedIndex st = Some j\<close> same suggestFromBank_cong [OF _ o r]
        by (simp add: solve_def)
    qed
  qed
qed

lemma recalc_paint:
  "recalcAndPaint d st =
     (let st2 = passInput d st; sug = solve st2; rs = mergeStakes d st2 sug; tot = sumStakes rs
      in Inr (st2\<lparr>rows := rs, bank := (if activeElement d \<noteq> ActiveBank then tot else bank st2)\<rparr>,
              d\<lparr>bankInp := (if activeElement d \<noteq> ActiveBank then fmt2 tot else bankInp d)\<rparr>,
              paint (specValid st2) (map specRowError (rows (ensureRows st))) (fixedIndex st2) sug rs))"
  by (simp add: recalc_eq paint_def Let_def)

lemma paint_fields:
  "suggested (paint ok errs fi sug rs) = sug"
  "total (paint ok errs fi sug rs) = sumStakes rs"
  "valid (paint ok errs fi sug rs) = ok"
  "payouts (paint ok errs fi sug rs) = payouts (paint ok' errs' fi sug rs)"
  "profits (paint ok errs fi sug rs) = profits (paint ok' errs' fi sug rs)"
  "sInv (paint ok errs fi sug rs) = sInv (paint ok' errs' fi sug rs)"
  "isArb (paint ok errs fi sug rs) = isArb (paint ok' errs' fi sug rs)"
  "roiRow (paint ok errs fi sug rs) = roiRow (paint ok' errs' fi sug rs)"
  "roi (paint ok errs fi sug rs) = roi (paint ok' errs' fi sug rs)"
  by (simp_all add: paint_def Let_def)

lemma okEntry_solve: "list_all okEntry (solve st)"
  by (auto simp: solve_def okEntry_suggestFromBank okEntry_suggestFromFixedRow split: option.splits)

lemma valid_again:
  assumes len: "length (rows st) = n st"
    and fi: "\<And>j. fixedIndex st = Some j \<Longrightarrow> 0 \<le> j \<and> j < int (n st)"
    and v: "specValid st" and t: "0 \<le> t" and sug: "list_all okEntry sug"
  shows "specValid (st\<lparr>rows := mergeStakes d st sug, bank := Fin t\<rparr>)
       \<and> map specRowError (mergeStakes d st sug) = map specRowError (rows st)"
proof -
  let ?rs = "mergeStakes d st sug"
  have l: "length ?rs = n st" using len by simp
  have ok0: "specOddsOk (rows st ! i) \<and> specStakeOk (rows st ! i)" if "i < n st" for i
    using v that len by (simp add: specValid_def list_all_length)
  have ok1: "specOddsOk (?rs ! i) \<and> specStakeOk (?rs ! i)" if "i < n st" for i
  proof (cases "eligible d (fixedIndex st) sug (rows st ! i) i")
    case True
    then have "i < length sug" "isNum (sug ! i)" by (simp_all add: eligible_def)
    moreover from this sug have "okEntry (sug ! i)" by (simp add: list_all_length)
    ultimately obtain x where "sug ! i = Fin x" "0 \<le> x"
      by (cases "sug ! i") (auto simp: okEntry_def)
    with True that ok0 [OF that] show ?thesis
      by (simp add: nth_mergeStakes [OF len that] specOddsOk_def specStakeOk_def)
  next
    case False
    with that ok0 [OF that] show ?thesis by (simp add: nth_mergeStakes [OF len that])
  qed
  have errs: "map specRowError ?rs = map specRowError (rows st)"
    using l len ok0 ok1 by (intro nth_equalityI) (simp_all add: specRowError_def)
  have all: "list_all (\<lambda>r. specOddsOk r \<and> specStakeOk r) ?rs"
    using l ok1 by (simp add: list_all_length)
  have "list_ex R (rows st)" using v by (simp add: specValid_def)
  then obtain i where i: "i < n st" "R (rows st ! i)"
    using len by (auto simp: list_ex_length)
  then have "R (?rs ! i)" by (simp add: nth_mergeStakes [OF len])
  with i(1) l have ex: "list_ex R ?rs" by (auto simp: list_ex_length)
  have fixed: "specFixedOk (?rs ! nat j)" if "fixedIndex st = Some j" for j
    using that v fi [OF that] fixed_row_kept [OF len that, of d sug]
    by (simp add: specValid_def)
  show ?thesis
    using errs all ex fixed t
    by (simp add: specValid_def specBankOk_def split: option.splits)
qed

lemma second_pass:
  assumes nf: "noFocus d"
    and h: "(\<exists>j. fixedIndex (ensureRows st) = Some j \<and> R (rows (ensureRows st) ! nat j))
            \<or> sumStakes (mergeStakes d (passInput d st) (solve (passInput d st)))
                = bankT (toNumber (bankInp d))"
  shows "\<exists>st' d' ok errs ok' errs' fi sug rs.
           recalcAndPaint d st = Inr (st', d', paint ok errs fi sug rs)
         \<and> recalcAndPaint d' st' = Inr (st', d', paint ok' errs' fi sug rs)
         \<and> (ok \<longrightarrow> ok' \<and> errs' = errs)"
proof -
  define st2 where "st2 = passInput d st"
  define sug where "sug = solve st2"
  define rs where "rs = mergeStakes d st2 sug"
  obtain t where t: "sumStakes rs = Fin t" "cents t" "0 \<le> t"
    using sumStakes_cents by blast
  define st' where "st' = st2\<lparr>rows := rs, bank := Fin t\<rparr>"
  define d' where "d' = d\<lparr>bankInp := fmt2 (Fin t)\<rparr>"
  have nb: "activeElement d \<noteq> ActiveBank"
    using nf by (auto simp: noFocus_def)
  have nb': "activeElement d' \<noteq> ActiveBank"
    using nb by (simp add: d'_def)
  have len2: "length (rows st2) = n st2" by (simp add: st2_def)
  have fi2: "0 \<le> j \<and> j < int (n st2)" if "fixedIndex st2 = Some j" for j
    using that fixedIndex_ensureRows [of st j] by (simp add: st2_def)
  have first: "recalcAndPaint d st
      = Inr (st', d', paint (specValid st2) (map specRowError (rows (ensureRows st)))
                        (fixedIndex st2) sug rs)"
    using nb t(1) unfolding st'_def d'_def
    by (simp add: recalc_paint Let_def st2_def [symmetric] sug_def [symmetric] rs_def [symmetric]
        del: fmt2.simps)
  have len': "length (rows st') = n st'"
    using len2 by (simp add: st'_def rs_def)
  have fi': "0 \<le> j \<and> j < int (n st')" if "fixedIndex st' = Some j" for j
    using that fi2 [of j] by (simp add: st'_def)
  have norm: "ensureRows st' = st'"
    using len' fi' by (rule ensureRows_id)
  have bnk: "toNumber (bankInp d') = Fin t"
    using t(2) by (simp add: d'_def toNumber_fmt2 del: fmt2.simps)
  have same: "st'\<lparr>bank := Fin t\<rparr> = st'" "st'\<lparr>rows := rs, bank := Fin t\<rparr> = st'"
    "d'\<lparr>bankInp := fmt2 (Fin t)\<rparr> = d'" "rows st' = rs" "fixedIndex st' = fixedIndex st2"
    by (simp_all add: st'_def d'_def del: fmt2.simps)
  have h': "(\<exists>j. fixedIndex st2 = Some j \<and> R (rows st2 ! nat j)) \<or> bankT (Fin t) = bankT (bank st2)"
    using h t(1,3) by (auto simp: bankT_Fin st2_def rs_def sug_def)
  have sol: "solve st' = sug"
    using solve_again [OF len2 fi2 h', of d sug] by (simp add: st'_def rs_def sug_def [symmetric])
  have mer: "mergeStakes d' st' sug = rs"
    using merge_again [where st = st2 and d = d and d' = d' and sug = sug and b = "Fin t"] len2
    by (simp add: st'_def rs_def d'_def)
  have "recalcAndPaint d' st'
      = Inr (st'\<lparr>rows := rs, bank := (if activeElement d' \<noteq> ActiveBank then sumStakes rs else bank st')\<rparr>,
             d'\<lparr>bankInp := (if activeElement d' \<noteq> ActiveBank then fmt2 (sumStakes rs) else bankInp d')\<rparr>,
             paint (specValid st') (map specRowError (rows st')) (fixedIndex st') sug rs)"
    by (simp only: recalc_paint [of d' st'] Let_def norm bnk same(1) sol mer)
  then have second: "recalcAndPaint d' st'
      = Inr (st', d', paint (specValid st') (map specRowError rs) (fixedIndex st2) sug rs)"
    by (simp only: nb' t(1) same if_True not_False_eq_True simp_thms)
  have oks: "list_all okEntry sug"
    unfolding sug_def by (rule okEntry_solve)
  have rows2: "rows st2 = rows (ensureRows st)"
    by (simp add: st2_def)
  have "specValid st' \<and> map specRowError rs = map specRowError (rows (ensureRows st))"
    if "specValid st2"
    using valid_again [where st = st2 and d = d and sug = sug and t = t, OF len2 fi2 that t(3) oks]
    by (simp only: st'_def rs_def rows2)
  with first second show ?thesis by blast
qed

section \<open>The claims\<close>

subsection \<open>Arbitrage indicator\<close>


subsection \<open>The fixed-row solver declines\<close>

text \<open>
  Claim C5. \<open>suggestFromFixedRow\<close> returns \<open>null\<close> exactly when the fixed row does
  not exist or is not a recipient. When a fixed row is designated the pass uses the
  vector of \<open>suggestFromFixedRow\<close> if there is one, and exactly when there is none it
  uses \<open>suggestFromBank\<close> on the bankroll read at the start of the pass.
\<close>

theorem fixed_solver_declines:
  "(suggestFromFixedRow j rs = None) = (j < 0 \<or> int (length rs) \<le> j \<or> \<not> R (rs ! nat j))
   \<and> (fixedIndex (ensureRows st) = Some j \<longrightarrow>
        (\<exists>st' d' p. recalcAndPaint d st = Inr (st', d', p)
           \<and> (case suggestFromFixedRow j (rows (ensureRows st)) of
                 None \<Rightarrow> suggested p = suggestFromBank (toNumber (bankInp d)) (rows (ensureRows st))
               | Some sug \<Rightarrow> suggested p = sug)))"
proof
  show "(suggestFromFixedRow j rs = None) = (j < 0 \<or> int (length rs) \<le> j \<or> \<not> R (rs ! nat j))"
    by (auto simp: suggestFromFixedRow_def elemAt_def Let_def)
  show "fixedIndex (ensureRows st) = Some j \<longrightarrow>
        (\<exists>st' d' p. recalcAndPaint d st = Inr (st', d', p)
           \<and> (case suggestFromFixedRow j (rows (ensureRows st)) of
                 None \<Rightarrow> suggested p = suggestFromBank (toNumber (bankInp d)) (rows (ensureRows st))
               | Some sug \<Rightarrow> suggested p = sug))"
    unfolding recalc_eq Let_def by (simp add: solve_def split: option.splits)
qed

theorem fixed_solver_declines_witness:
  "(suggestFromFixedRow 1 [mkRow 2 600 True False, mkRow 3 50 False False] = None)
   \<and> (\<exists>st' d' p. recalcAndPaint (idle 1000)
          (position (Some 1) [mkRow 2 600 True False, mkRow 3 50 False False]) = Inr (st', d', p)
         \<and> suggested p = [Fin (66667 / 100), Fin (33333 / 100)])"
proof -
  let ?rs = "[mkRow 2 600 True False, mkRow 3 50 False False]"
  have e: "ensureRows (position (Some 1) ?rs) = position (Some 1) ?rs"
    by code_simp
  have f: "suggestFromFixedRow 1 ?rs = None"
    by code_simp
  have b: "suggestFromBank (toNumber (bankInp (idle 1000))) ?rs = [Fin (66667 / 100), Fin (33333 / 100)]"
    by code_simp
  have r: "rows (position (Some 1) ?rs) = ?rs" "fixedIndex (position (Some 1) ?rs) = Some 1"
    by (simp_all add: position_def)
  show ?thesis
    using fixed_solver_declines [of 1 ?rs "position (Some 1) ?rs" "idle 1000"]
    by (simp add: e f b r)
qed

subsection \<open>Validator\<close>

text \<open>
  Claim C6. On a normalised state (as many rows as \<open>n\<close>, the fixed index within
  them) \<open>validate\<close> returns, its flag is the conjunction of all checks of the
  specification, and every row gets its own error detail, whatever the other checks say.
\<close>

theorem validate_conjunction:
  assumes "length (rows st) = n st"
    and "\<forall>j. fixedIndex st = Some j \<longrightarrow> 0 \<le> j \<and> j < int (n st)"
  shows "validate st = Inr (specValid st, map specRowError (rows st))"
  using assms by (intro validate_eq) auto

theorem validate_conjunction_witness:
  "validate \<lparr>n = 2, fixedIndex = Some 0, bank = Fin 1000,
             rows = [mkRow 2 600 True False, mkRow 1 (- 5) False False]\<rparr>
     = Inr (False, [\<lparr>oddsError = [], stakeError = []\<rparr>,
                    \<lparr>oddsError = oddsMessage, stakeError = stakeMessage\<rparr>])"
  using validate_conjunction
    [of "\<lparr>n = 2, fixedIndex = Some 0, bank = Fin 1000,
             rows = [mkRow 2 600 True False, mkRow 1 (- 5) False False]\<rparr>"]
  by (simp add: specValid_def specRowError_def specOddsOk_def specStakeOk_def mkRow_def)

subsection \<open>Manual stakes survive the pass\<close>

text \<open>
  Claim C9. After the pass the stake of an existing row is its old stake verbatim when
  the row is the fixed row, is flagged manual or has the focus, whatever the solver
  suggested; only a row that is none of these takes the suggested stake (and then only
  a finite one).
\<close>

theorem manual_stake_kept:
  assumes "i < n st" and "i < length (rows st)"
  shows "\<exists>st' d' p. recalcAndPaint d st = Inr (st', d', p)
     \<and> stake (rows st' ! i) =
         (if fixedIndex st' = Some (int i) \<or> manual (rows st ! i) \<or> activeElement d = ActiveStake i
          then stake (rows st ! i)
          else if isNum (suggested p ! i) then suggested p ! i
          else stake (rows st ! i))"
  using assms unfolding recalc_eq Let_def
  by (simp add: nth_mergeStakes eligible_def nth_rows_ensureRows)

theorem manual_stake_kept_witness:
  "\<exists>st' d' p. recalcAndPaint (idle 1000)
       (position None [mkRow 2 100 True True, mkRow 2 0 True False]) = Inr (st', d', p)
     \<and> stake (rows st' ! 0) = Fin 100"
  using manual_stake_kept
    [of 0 "position None [mkRow 2 100 True True, mkRow 2 0 True False]" "idle 1000"]
  by (simp add: position_def mkRow_def)

subsection \<open>Fixed-stake fidelity\<close>



subsection \<open>Zero profit on the other rows\<close>




subsection \<open>Conservation\<close>




subsection \<open>Equal profit on the recipient rows\<close>




subsection \<open>Idempotence\<close>




subsection \<open>The solvers are total\<close>




end
